theory Spec2Isabelle
  imports Main "HOL-Library.Product_Lexorder"
begin

section \<open>Data model\<close>

text \<open>
  A cell is a pair of Python integers. A Python string is the list of its code points;
  the five markers of \<^verbatim>\<open>app.py\<close> are one code point each. The maze is a dict from
  cells to strings; a lookup \<^verbatim>\<open>maze[c]\<close> of a missing key raises \<^verbatim>\<open>KeyError\<close>,
  \<^verbatim>\<open>random.randrange\<close> on an empty range raises \<^verbatim>\<open>ValueError\<close>.
  A computation has a value of type \<open>(error + 'a) option\<close>: \<open>None\<close> when it does not
  return, \<open>Some (Inl e)\<close> when it raises \<open>e\<close>, \<open>Some (Inr v)\<close> when it returns \<open>v\<close>.
\<close>

type_synonym cell = "int \<times> int"
type_synonym pystr = "nat list"
type_synonym grid = "cell \<rightharpoonup> pystr"

datatype error = KeyError | ValueError

definition EMPTY :: pystr where
  "EMPTY = [0x2B1C]"

definition WALL :: pystr where
  "WALL = [0x2B1B]"

definition START :: pystr where
  "START = [0x1F6A9]"

definition END :: pystr where
  "END = [0x1F3C1]"

definition PATH_MARK :: pystr where
  "PATH_MARK = [0x1F7E9]"

definition NEWLINE :: pystr where
  "NEWLINE = [10]"

definition in_bounds :: "int \<Rightarrow> int \<Rightarrow> cell \<Rightarrow> bool" where
  "in_bounds w h c \<longleftrightarrow> 0 \<le> fst c \<and> fst c < w \<and> 0 \<le> snd c \<and> snd c < h"

definition cells :: "int \<Rightarrow> int \<Rightarrow> cell list" where
  "cells w h = concat (map (\<lambda>x. map (\<lambda>y. (x, y)) [0..h - 1]) [0..w - 1])"

definition dense :: "grid \<Rightarrow> int \<Rightarrow> int \<Rightarrow> bool" where
  "dense m w h \<longleftrightarrow> list_all (\<lambda>c. m c = Some WALL \<or> m c = Some EMPTY) (cells w h)"

section \<open>The solvers\<close>

definition dirs :: "(int \<times> int) list" where
  "dirs = [(1, 0), (-1, 0), (0, 1), (0, -1)]"

fun foldE :: "('s \<Rightarrow> 'a \<Rightarrow> error + 's) \<Rightarrow> 'a list \<Rightarrow> 's \<Rightarrow> error + 's" where
  "foldE f [] s = Inr s"
| "foldE f (a # as) s = (case f s a of Inl e \<Rightarrow> Inl e | Inr s' \<Rightarrow> foldE f as s')"

definition dict_get :: "('k \<rightharpoonup> 'v option) \<Rightarrow> 'k \<Rightarrow> 'v option" where
  "dict_get d k = (case d k of None \<Rightarrow> None | Some v \<Rightarrow> v)"

text \<open>
  The reconstruction loop shared by the three solvers:
  \<^verbatim>\<open>while node: path.append(node); node = parents.get(node)\<close>.
  A cell is a 2-tuple, hence truthy; only \<^verbatim>\<open>None\<close> stops the loop. On a cyclic
  predecessor map the loop does not return.
\<close>

partial_function (option) walk ::
  "(cell \<rightharpoonup> cell option) \<Rightarrow> cell option \<Rightarrow> cell list \<Rightarrow> cell list option" where
  "walk ps node path =
     (case node of
        None \<Rightarrow> Some path
      | Some c \<Rightarrow> walk ps (dict_get ps c) (path @ [c]))"

definition reconstruct :: "(cell \<rightharpoonup> cell option) \<Rightarrow> cell \<Rightarrow> cell list option" where
  "reconstruct ps goal = map_option rev (walk ps (Some goal) [])"

subsection \<open>bfs and dfs\<close>

text \<open>
  The loops of \<^verbatim>\<open>bfs\<close> and \<^verbatim>\<open>dfs\<close> are the same text but for the end of the
  list they pop from, so they share the state: \<open>frontier\<close> is the deque \<^verbatim>\<open>queue\<close>
  of \<^verbatim>\<open>bfs\<close> and the list \<^verbatim>\<open>stack\<close> of \<^verbatim>\<open>dfs\<close>. The maze is part of the state:
  it is a mutable dict the solver holds a reference to.
\<close>

record search_state =
  maze :: grid
  frontier :: "cell list"
  parents :: "cell \<rightharpoonup> cell option"

text \<open>The body of \<^verbatim>\<open>for dx, dy in [(1,0),(-1,0),(0,1),(0,-1)]\<close> at the cell \<open>c\<close>.\<close>

definition discover :: "int \<Rightarrow> int \<Rightarrow> cell \<Rightarrow> search_state \<Rightarrow> int \<times> int \<Rightarrow> error + search_state" where
  "discover w h c s d =
     (let n = (fst c + fst d, snd c + snd d) in
      if 0 \<le> fst n \<and> fst n < w \<and> 0 \<le> snd n \<and> snd n < h then
        (case maze s n of
           None \<Rightarrow> Inl KeyError
         | Some v \<Rightarrow>
             if v \<noteq> WALL \<and> parents s n = None
             then Inr (s\<lparr>parents := (parents s)(n \<mapsto> Some c), frontier := frontier s @ [n]\<rparr>)
             else Inr s)
      else Inr s)"

definition unseen :: "int \<Rightarrow> int \<Rightarrow> (cell \<rightharpoonup> 'v) \<Rightarrow> cell set" where
  "unseen w h ps = {c. in_bounds w h c \<and> ps c = None}"

definition search_measure :: "int \<Rightarrow> int \<Rightarrow> search_state \<Rightarrow> nat" where
  "search_measure w h s = 2 * card (unseen w h (parents s)) + length (frontier s)"

function bfs_loop :: "int \<Rightarrow> int \<Rightarrow> cell \<Rightarrow> search_state \<Rightarrow> error + search_state" where
  "bfs_loop w h goal s =
     (case frontier s of
        [] \<Rightarrow> Inr s
      | c # q \<Rightarrow>
          if c = goal then Inr (s\<lparr>frontier := q\<rparr>)
          else (case foldE (discover w h c) dirs (s\<lparr>frontier := q\<rparr>) of
                  Inl e \<Rightarrow> Inl e
                | Inr s' \<Rightarrow> bfs_loop w h goal s'))"
  by pat_completeness auto

lemma finite_in_bounds: "finite {c. in_bounds w h c}"
proof -
  have "{c. in_bounds w h c} \<subseteq> {0..<w} \<times> {0..<h}"
    by (auto simp: in_bounds_def)
  then show ?thesis by (rule finite_subset) simp
qed

lemma finite_unseen: "finite (unseen w h ps)"
  by (rule finite_subset[OF _ finite_in_bounds[of w h]]) (auto simp: unseen_def)

lemma foldE_preserves:
  assumes "foldE f as s = Inr s'" and "P s"
    and "\<And>s a s'. P s \<Longrightarrow> a \<in> set as \<Longrightarrow> f s a = Inr s' \<Longrightarrow> P s'"
  shows "P s'"
  using assms
proof (induction as arbitrary: s)
  case Nil then show ?case by simp
next
  case (Cons a as)
  from Cons.prems(1) obtain s1 where 1: "f s a = Inr s1" and 2: "foldE f as s1 = Inr s'"
    by (auto split: sum.splits)
  have s1: "P s1" using Cons.prems(3)[OF Cons.prems(2) _ 1] by simp
  show ?case
  proof (rule Cons.IH[OF 2 s1])
    fix t b t' assume "P t" "b \<in> set as" "f t b = Inr t'"
    then show "P t'" using Cons.prems(3)[of t b t'] by simp
  qed
qed

lemma unseen_upd:
  assumes "in_bounds w h n" "ps n = None"
  shows "card (unseen w h (ps(n \<mapsto> v))) < card (unseen w h ps)"
proof -
  have "unseen w h (ps(n \<mapsto> v)) = unseen w h ps - {n}"
    by (auto simp: unseen_def)
  moreover have "n \<in> unseen w h ps" using assms by (simp add: unseen_def)
  ultimately show ?thesis
    using finite_unseen[of w h ps] card_Diff1_less[of "unseen w h ps" n] by simp
qed

lemma discover_cases:
  assumes "discover w h c s d = Inr s'"
  shows "s' = s \<or>
    (in_bounds w h (fst c + fst d, snd c + snd d) \<and>
     (\<exists>v. maze s (fst c + fst d, snd c + snd d) = Some v \<and> v \<noteq> WALL) \<and>
     parents s (fst c + fst d, snd c + snd d) = None \<and>
     s' = s\<lparr>parents := (parents s)((fst c + fst d, snd c + snd d) \<mapsto> Some c),
            frontier := frontier s @ [(fst c + fst d, snd c + snd d)]\<rparr>)"
proof (cases "maze s (fst c + fst d, snd c + snd d)")
  case None
  with assms show ?thesis
    by (simp add: discover_def Let_def split: if_splits)
next
  case (Some v)
  with assms show ?thesis
    by (simp add: discover_def Let_def in_bounds_def split: if_splits)
qed

lemma discover_measure:
  assumes "discover w h c s d = Inr s'"
  shows "search_measure w h s' \<le> search_measure w h s"
proof -
  let ?n = "(fst c + fst d, snd c + snd d)"
  from discover_cases[OF assms] show ?thesis
  proof
    assume "s' = s" then show ?thesis by simp
  next
    assume a: "in_bounds w h ?n \<and> (\<exists>v. maze s ?n = Some v \<and> v \<noteq> WALL) \<and> parents s ?n = None \<and>
      s' = s\<lparr>parents := (parents s)(?n \<mapsto> Some c), frontier := frontier s @ [?n]\<rparr>"
    then have "card (unseen w h (parents s')) < card (unseen w h (parents s))"
      using unseen_upd[of w h ?n "parents s" "Some c"] by simp
    moreover from a have "length (frontier s') = Suc (length (frontier s))" by simp
    ultimately show ?thesis unfolding search_measure_def by linarith
  qed
qed

lemma foldE_discover_measure:
  assumes "foldE (discover w h c) ds s = Inr s'"
  shows "search_measure w h s' \<le> search_measure w h s"
proof (rule foldE_preserves[OF assms, where P = "\<lambda>t. search_measure w h t \<le> search_measure w h s"])
  show "search_measure w h s \<le> search_measure w h s" by simp
next
  fix t a t'
  assume "search_measure w h t \<le> search_measure w h s" "discover w h c t a = Inr t'"
  then show "search_measure w h t' \<le> search_measure w h s"
    using discover_measure[of w h c t a t'] by linarith
qed

termination bfs_loop
proof (relation "measure (\<lambda>(w, h, goal, s). search_measure w h s)", goal_cases)
  case 1 show ?case by simp
next
  case (2 w h goal s c q s')
  from foldE_discover_measure[OF 2(3)] have "search_measure w h s' \<le> search_measure w h (s\<lparr>frontier := q\<rparr>)" .
  also have "\<dots> < search_measure w h s" using 2(1) by (simp add: search_measure_def)
  finally show ?case by simp
qed

declare bfs_loop.simps [simp del]

definition bfs_search :: "grid \<Rightarrow> cell \<Rightarrow> cell \<Rightarrow> int \<Rightarrow> int \<Rightarrow> error + search_state" where
  "bfs_search m start goal w h =
     bfs_loop w h goal \<lparr>maze = m, frontier = [start], parents = [start \<mapsto> None]\<rparr>"

definition bfs :: "grid \<Rightarrow> cell \<Rightarrow> cell \<Rightarrow> int \<Rightarrow> int \<Rightarrow> (error + cell list) option" where
  "bfs m start goal w h =
     (case bfs_search m start goal w h of
        Inl e \<Rightarrow> Some (Inl e)
      | Inr s \<Rightarrow> map_option Inr (reconstruct (parents s) goal))"

function dfs_loop :: "int \<Rightarrow> int \<Rightarrow> cell \<Rightarrow> search_state \<Rightarrow> error + search_state" where
  "dfs_loop w h goal s =
     (if frontier s = [] then Inr s
      else
        let c = last (frontier s); s1 = s\<lparr>frontier := butlast (frontier s)\<rparr> in
        if c = goal then Inr s1
        else (case foldE (discover w h c) dirs s1 of
                Inl e \<Rightarrow> Inl e
              | Inr s' \<Rightarrow> dfs_loop w h goal s'))"
  by pat_completeness auto

termination dfs_loop
proof (relation "measure (\<lambda>(w, h, goal, s). search_measure w h s)", goal_cases)
  case 1 show ?case by simp
next
  case (2 w h goal s c s1 s')
  then show ?case
    using foldE_discover_measure[of w h c dirs s1 s']
    by (cases "frontier s" rule: rev_cases) (simp_all add: search_measure_def)
qed

declare dfs_loop.simps [simp del]


definition dfs_search :: "grid \<Rightarrow> cell \<Rightarrow> cell \<Rightarrow> int \<Rightarrow> int \<Rightarrow> error + search_state" where
  "dfs_search m start goal w h =
     dfs_loop w h goal \<lparr>maze = m, frontier = [start], parents = [start \<mapsto> None]\<rparr>"

definition dfs :: "grid \<Rightarrow> cell \<Rightarrow> cell \<Rightarrow> int \<Rightarrow> int \<Rightarrow> (error + cell list) option" where
  "dfs m start goal w h =
     (case dfs_search m start goal w h of
        Inl e \<Rightarrow> Some (Inl e)
      | Inr s \<Rightarrow> map_option Inr (reconstruct (parents s) goal))"

subsection \<open>astar\<close>

text \<open>
  \<^verbatim>\<open>heapq\<close> keeps the list \<^verbatim>\<open>open_set\<close> in heap order; \<^verbatim>\<open>heappop\<close> removes and
  returns its least element, tuples being compared lexicographically. Equal tuples are
  equal values, so the order inside the list is not observable and the heap is the list
  of its elements.
\<close>

definition heappush :: "'a list \<Rightarrow> 'a \<Rightarrow> 'a list" where
  "heappush hp x = x # hp"

definition heappop :: "('a::linorder) list \<Rightarrow> 'a \<times> 'a list" where
  "heappop hp = (let m = fold min (tl hp) (hd hp) in (m, remove1 m hp))"

record astar_state =
  a_maze :: grid
  open_set :: "(int \<times> cell) list"
  g_score :: "cell \<rightharpoonup> nat"
  a_parents :: "cell \<rightharpoonup> cell option"

definition relax :: "int \<Rightarrow> int \<Rightarrow> cell \<Rightarrow> cell \<Rightarrow> astar_state \<Rightarrow> int \<times> int \<Rightarrow> error + astar_state" where
  "relax w h goal current s d =
     (let n = (fst current + fst d, snd current + snd d) in
      if 0 \<le> fst n \<and> fst n < w \<and> 0 \<le> snd n \<and> snd n < h then
        (case a_maze s n of
           None \<Rightarrow> Inl KeyError
         | Some v \<Rightarrow>
             if v \<noteq> WALL then
               (case g_score s current of
                  None \<Rightarrow> Inl KeyError
                | Some gc \<Rightarrow>
                    let new_cost = gc + 1 in
                    if (case g_score s n of None \<Rightarrow> True | Some gn \<Rightarrow> new_cost < gn) then
                      let f = int new_cost + \<bar>fst n - fst goal\<bar> + \<bar>snd n - snd goal\<bar> in
                      Inr (s\<lparr>g_score := (g_score s)(n \<mapsto> new_cost),
                             open_set := heappush (open_set s) (f, n),
                             a_parents := (a_parents s)(n \<mapsto> Some current)\<rparr>)
                    else Inr s)
             else Inr s)
      else Inr s)"

definition g_sum :: "int \<Rightarrow> int \<Rightarrow> (cell \<rightharpoonup> nat) \<Rightarrow> nat" where
  "g_sum w h g = (\<Sum>c \<in> {c. in_bounds w h c}. case g c of None \<Rightarrow> 0 | Some k \<Rightarrow> k)"

definition astar_rank :: "int \<Rightarrow> int \<Rightarrow> astar_state \<Rightarrow> nat \<times> nat" where
  "astar_rank w h s = (card (unseen w h (g_score s)), g_sum w h (g_score s))"

function astar_loop :: "int \<Rightarrow> int \<Rightarrow> cell \<Rightarrow> astar_state \<Rightarrow> error + astar_state" where
  "astar_loop w h goal s =
     (if open_set s = [] then Inr s
      else
        let (e, hp) = heappop (open_set s); current = snd e; s1 = s\<lparr>open_set := hp\<rparr> in
        if current = goal then Inr s1
        else (case foldE (relax w h goal current) dirs s1 of
                Inl e \<Rightarrow> Inl e
              | Inr s' \<Rightarrow> astar_loop w h goal s'))"
  by pat_completeness auto

lemma relax_cases:
  assumes "relax w h goal c s d = Inr s'"
  shows "s' = s \<or>
    (in_bounds w h (fst c + fst d, snd c + snd d) \<and>
     (\<exists>v. a_maze s (fst c + fst d, snd c + snd d) = Some v \<and> v \<noteq> WALL) \<and>
     (\<exists>gc. g_score s c = Some gc \<and>
        (\<forall>gn. g_score s (fst c + fst d, snd c + snd d) = Some gn \<longrightarrow> gc + 1 < gn) \<and>
        s' = s\<lparr>g_score := (g_score s)((fst c + fst d, snd c + snd d) \<mapsto> gc + 1),
               open_set := heappush (open_set s)
                 (int (gc + 1) + \<bar>fst c + fst d - fst goal\<bar> + \<bar>snd c + snd d - snd goal\<bar>,
                  (fst c + fst d, snd c + snd d)),
               a_parents := (a_parents s)((fst c + fst d, snd c + snd d) \<mapsto> Some c)\<rparr>))"
proof (cases "a_maze s (fst c + fst d, snd c + snd d)")
  case None
  with assms show ?thesis
    by (simp add: relax_def Let_def split: if_splits)
next
  case mz: (Some v)
  show ?thesis
  proof (cases "g_score s c")
    case None
    with assms mz show ?thesis
      by (simp add: relax_def Let_def split: if_splits)
  next
    case (Some gc)
    with assms mz show ?thesis
      by (cases "g_score s (fst c + fst d, snd c + snd d)")
         (simp_all add: relax_def Let_def in_bounds_def split: if_splits)
  qed
qed

lemma g_sum_upd_less:
  assumes "in_bounds w h n" "g n = Some gn" "k < gn"
  shows "g_sum w h (g(n \<mapsto> k)) < g_sum w h g"
proof -
  let ?A = "{c. in_bounds w h c}"
  let ?f = "\<lambda>g c. case g c of None \<Rightarrow> 0 | Some (k::nat) \<Rightarrow> k"
  have fin: "finite ?A" by (rule finite_in_bounds)
  have n: "n \<in> ?A" using assms by simp
  have "sum (?f (g(n \<mapsto> k))) ?A = ?f (g(n \<mapsto> k)) n + sum (?f (g(n \<mapsto> k))) (?A - {n})"
    by (rule sum.remove[OF fin n])
  moreover have "sum (?f g) ?A = ?f g n + sum (?f g) (?A - {n})"
    by (rule sum.remove[OF fin n])
  moreover have "sum (?f (g(n \<mapsto> k))) (?A - {n}) = sum (?f g) (?A - {n})"
    by (rule sum.cong) auto
  ultimately show ?thesis using assms by (simp add: g_sum_def)
qed

definition rank_le :: "int \<Rightarrow> int \<Rightarrow> astar_state \<Rightarrow> astar_state \<Rightarrow> bool" where
  "rank_le w h t s \<longleftrightarrow>
     (astar_rank w h t = astar_rank w h s \<and> length (open_set t) = length (open_set s)) \<or>
     fst (astar_rank w h t) < fst (astar_rank w h s) \<or>
     (fst (astar_rank w h t) = fst (astar_rank w h s) \<and> snd (astar_rank w h t) < snd (astar_rank w h s))"

lemma rank_le_refl: "rank_le w h s s"
  by (simp add: rank_le_def)

lemma rank_le_trans: "rank_le w h u t \<Longrightarrow> rank_le w h t s \<Longrightarrow> rank_le w h u s"
  unfolding rank_le_def by (elim disjE conjE) simp_all

lemma relax_rank:
  assumes "relax w h goal c s d = Inr s'"
  shows "rank_le w h s' s"
proof -
  let ?n = "(fst c + fst d, snd c + snd d)"
  from relax_cases[OF assms] show ?thesis
  proof
    assume "s' = s" then show ?thesis by (simp add: rank_le_refl)
  next
    assume a: "in_bounds w h ?n \<and> (\<exists>v. a_maze s ?n = Some v \<and> v \<noteq> WALL) \<and>
     (\<exists>gc. g_score s c = Some gc \<and> (\<forall>gn. g_score s ?n = Some gn \<longrightarrow> gc + 1 < gn) \<and>
        s' = s\<lparr>g_score := (g_score s)(?n \<mapsto> gc + 1),
               open_set := heappush (open_set s)
                 (int (gc + 1) + \<bar>fst c + fst d - fst goal\<bar> + \<bar>snd c + snd d - snd goal\<bar>, ?n),
               a_parents := (a_parents s)(?n \<mapsto> Some c)\<rparr>)"
    then obtain gc where ib: "in_bounds w h ?n"
      and lt: "\<forall>gn. g_score s ?n = Some gn \<longrightarrow> gc + 1 < gn"
      and g': "g_score s' = (g_score s)(?n \<mapsto> gc + 1)"
      by auto
    show ?thesis
    proof (cases "g_score s ?n")
      case None
      from unseen_upd[of w h ?n "g_score s" "gc + 1", OF ib None] show ?thesis
        by (simp add: rank_le_def astar_rank_def g')
    next
      case (Some gn)
      with lt have "gc + 1 < gn" by simp
      from g_sum_upd_less[of w h ?n "g_score s" gn "gc + 1", OF ib Some this]
      have "g_sum w h (g_score s') < g_sum w h (g_score s)" by (simp add: g')
      moreover have "unseen w h (g_score s') = unseen w h (g_score s)"
        using Some by (auto simp: unseen_def g')
      ultimately show ?thesis by (simp add: rank_le_def astar_rank_def)
    qed
  qed
qed

lemma foldE_relax_rank:
  assumes "foldE (relax w h goal c) ds s = Inr s'"
  shows "rank_le w h s' s"
proof (rule foldE_preserves[OF assms, where P = "\<lambda>t. rank_le w h t s"])
  show "rank_le w h s s" by (rule rank_le_refl)
next
  fix t a t'
  assume "rank_le w h t s" "relax w h goal c t a = Inr t'"
  then show "rank_le w h t' s"
    using relax_rank[of w h goal c t a t'] rank_le_trans by blast
qed

lemma length_heappop:
  assumes "hp \<noteq> []" "heappop hp = (e, hp')"
  shows "length hp' < length hp" "e \<in> set hp"
proof -
  have m: "fold min xs x \<in> set (x # xs)" for xs and x :: 'a
    by (induction xs arbitrary: x) (auto simp: min_def)
  from assms(1) have "fold min (tl hp) (hd hp) \<in> set hp"
    using m[of "tl hp" "hd hp"] by (cases hp) auto
  with assms(2) show "e \<in> set hp" by (auto simp: heappop_def Let_def)
  then have "0 < length hp" by (rule length_pos_if_in_set)
  then show "length hp' < length hp"
    using assms(2) \<open>e \<in> set hp\<close> by (auto simp: heappop_def Let_def length_remove1)
qed

termination astar_loop
proof (relation "inv_image (less_than <*lex*> less_than <*lex*> less_than)
     (\<lambda>(w, h, goal, s). (fst (astar_rank w h s), snd (astar_rank w h s), length (open_set s)))",
    goal_cases)
  case 1 show ?case by (intro wf_inv_image wf_lex_prod wf_less_than)
next
  case (2 w h goal s x e hp current s1 s')
  from 2 have pop: "heappop (open_set s) = (e, hp)" by simp
  from length_heappop(1)[OF 2(1) pop] have len: "length hp < length (open_set s)" .
  have s1: "s1 = s\<lparr>open_set := hp\<rparr>" using 2 by simp
  have r1: "astar_rank w h s1 = astar_rank w h s" by (simp add: s1 astar_rank_def)
  from foldE_relax_rank[OF 2(7)] r1 len s1
  show ?case unfolding rank_le_def by auto
qed

declare astar_loop.simps [simp del]

definition astar_search :: "grid \<Rightarrow> cell \<Rightarrow> cell \<Rightarrow> int \<Rightarrow> int \<Rightarrow> error + astar_state" where
  "astar_search m start goal w h =
     astar_loop w h goal
       \<lparr>a_maze = m, open_set = [(0, start)], g_score = [start \<mapsto> 0], a_parents = [start \<mapsto> None]\<rparr>"

definition astar :: "grid \<Rightarrow> cell \<Rightarrow> cell \<Rightarrow> int \<Rightarrow> int \<Rightarrow> (error + cell list) option" where
  "astar m start goal w h =
     (case astar_search m start goal w h of
        Inl e \<Rightarrow> Some (Inl e)
      | Inr s \<Rightarrow> map_option Inr (reconstruct (a_parents s) goal))"


section \<open>The renderer\<close>

text \<open>
  \<^verbatim>\<open>path\<close>, \<^verbatim>\<open>start\<close> and \<^verbatim>\<open>goal\<close> default to \<^verbatim>\<open>None\<close>, so they are options here.
  \<open>r_grid\<close> is the string \<^verbatim>\<open>grid\<close> the function builds.
\<close>

record render_state =
  r_maze :: grid
  r_grid :: pystr

definition render_cell ::
  "cell list option \<Rightarrow> cell option \<Rightarrow> cell option \<Rightarrow> int \<Rightarrow> render_state \<Rightarrow> int \<Rightarrow> error + render_state" where
  "render_cell path start goal y s x =
     (if (case path of None \<Rightarrow> False | Some p \<Rightarrow> p \<noteq> [] \<and> (x, y) \<in> set p)
         \<and> Some (x, y) \<noteq> start \<and> Some (x, y) \<noteq> goal
      then Inr (s\<lparr>r_grid := r_grid s @ PATH_MARK\<rparr>)
      else if Some (x, y) = start then Inr (s\<lparr>r_grid := r_grid s @ START\<rparr>)
      else if Some (x, y) = goal then Inr (s\<lparr>r_grid := r_grid s @ END\<rparr>)
      else (case r_maze s (x, y) of
              None \<Rightarrow> Inl KeyError
            | Some v \<Rightarrow>
                if v = WALL then Inr (s\<lparr>r_grid := r_grid s @ WALL\<rparr>)
                else Inr (s\<lparr>r_grid := r_grid s @ EMPTY\<rparr>)))"

definition render_row ::
  "cell list option \<Rightarrow> cell option \<Rightarrow> cell option \<Rightarrow> int \<Rightarrow> render_state \<Rightarrow> int \<Rightarrow> error + render_state" where
  "render_row path start goal w s y =
     (case foldE (render_cell path start goal y) [0..w - 1] s of
        Inl e \<Rightarrow> Inl e
      | Inr s' \<Rightarrow> Inr (s'\<lparr>r_grid := r_grid s' @ NEWLINE\<rparr>))"

definition render_run ::
  "grid \<Rightarrow> int \<Rightarrow> int \<Rightarrow> cell list option \<Rightarrow> cell option \<Rightarrow> cell option \<Rightarrow> error + render_state" where
  "render_run m w h path start goal =
     foldE (render_row path start goal w) [0..h - 1] \<lparr>r_maze = m, r_grid = []\<rparr>"

definition render_maze ::
  "grid \<Rightarrow> int \<Rightarrow> int \<Rightarrow> cell list option \<Rightarrow> cell option \<Rightarrow> cell option \<Rightarrow> error + pystr" where
  "render_maze m w h path start goal =
     (case render_run m w h path start goal of Inl e \<Rightarrow> Inl e | Inr s \<Rightarrow> Inr (r_grid s))"

section \<open>The generator\<close>

text \<open>
  The module \<^verbatim>\<open>random\<close> is not part of the repository, so the generator is a parameter:
  \<open>rnd_seed\<close> is the state \<^verbatim>\<open>random.seed\<close> installs, \<open>rnd_below st n\<close> the draw behind
  \<^verbatim>\<open>_randbelow(n)\<close> with the state it leaves. The library returns a value below \<open>n\<close>;
  \<open>randbelow\<close> reduces the draw modulo \<open>n\<close>, which changes no generator that keeps this
  contract and makes every parameter keep it. \<^verbatim>\<open>random.choice(seq)\<close> is
  \<^verbatim>\<open>seq[_randbelow(len(seq))]\<close> and \<^verbatim>\<open>randrange(a, b)\<close> is \<^verbatim>\<open>a + _randbelow(b - a)\<close>,
  raising \<^verbatim>\<open>ValueError\<close> when the range is empty.
\<close>

record 'r random_src =
  rnd_seed :: "int \<Rightarrow> 'r"
  rnd_below :: "'r \<Rightarrow> nat \<Rightarrow> nat \<times> 'r"

definition randbelow :: "'r random_src \<Rightarrow> 'r \<Rightarrow> nat \<Rightarrow> nat \<times> 'r" where
  "randbelow R st n = (case rnd_below R st n of (k, st') \<Rightarrow> (k mod n, st'))"

definition choice :: "'r random_src \<Rightarrow> 'r \<Rightarrow> 'a list \<Rightarrow> 'a \<times> 'r" where
  "choice R st xs = (case randbelow R st (length xs) of (i, st') \<Rightarrow> (xs ! i, st'))"

definition randrange :: "'r random_src \<Rightarrow> 'r \<Rightarrow> int \<Rightarrow> int \<Rightarrow> error + int \<times> 'r" where
  "randrange R st a b =
     (if b - a \<le> 0 then Inl ValueError
      else (case randbelow R st (nat (b - a)) of (k, st') \<Rightarrow> Inr (a + int k, st')))"

record 'r gen_state =
  g_maze :: grid
  visited :: "cell set"
  rng :: 'r

definition neighbors :: "int \<Rightarrow> int \<Rightarrow> cell set \<Rightarrow> int \<Rightarrow> int \<Rightarrow> (int \<times> int \<times> int \<times> int) list" where
  "neighbors width height vis x y =
     (if y > 1 \<and> (x, y - 2) \<notin> vis then [(x, y - 2, x, y - 1)] else []) @
     (if y < height - 2 \<and> (x, y + 2) \<notin> vis then [(x, y + 2, x, y + 1)] else []) @
     (if x > 1 \<and> (x - 2, y) \<notin> vis then [(x - 2, y, x - 1, y)] else []) @
     (if x < width - 2 \<and> (x + 2, y) \<notin> vis then [(x + 2, y, x + 1, y)] else [])"

text \<open>
  \<open>visit_loop\<close> is the \<^verbatim>\<open>while True\<close> loop of \<^verbatim>\<open>visit(x, y)\<close>; the recursive call
  \<^verbatim>\<open>visit(nx, ny)\<close> is its first statement \<^verbatim>\<open>maze[(nx, ny)] = EMPTY\<close> followed by the
  loop at \<open>(nx, ny)\<close>. \<open>None\<close> stands for a recursion that does not return.
\<close>

partial_function (option) visit_loop ::
  "'r random_src \<Rightarrow> int \<Rightarrow> int \<Rightarrow> int \<Rightarrow> int \<Rightarrow> 'r gen_state \<Rightarrow> 'r gen_state option" where
  "visit_loop R width height x y s =
     (let nbs = neighbors width height (visited s) x y in
      if nbs = [] then Some s
      else
        (case choice R (rng s) nbs of
           ((nx, ny, wx, wy), st') \<Rightarrow>
             Option.bind
               (visit_loop R width height nx ny
                  (s\<lparr>g_maze := (g_maze s)((wx, wy) \<mapsto> EMPTY, (nx, ny) \<mapsto> EMPTY),
                     visited := insert (nx, ny) (visited s),
                     rng := st'\<rparr>))
               (visit_loop R width height x y)))"

definition visit :: "'r random_src \<Rightarrow> int \<Rightarrow> int \<Rightarrow> int \<Rightarrow> int \<Rightarrow> 'r gen_state \<Rightarrow> 'r gen_state option" where
  "visit R width height x y s = visit_loop R width height x y (s\<lparr>g_maze := (g_maze s)((x, y) \<mapsto> EMPTY)\<rparr>)"

fun add_loops :: "'r random_src \<Rightarrow> int \<Rightarrow> int \<Rightarrow> nat \<Rightarrow> grid \<times> 'r \<Rightarrow> error + grid \<times> 'r" where
  "add_loops R width height 0 ms = Inr ms"
| "add_loops R width height (Suc k) ms =
     (case randrange R (snd ms) 1 (width - 1) of
        Inl e \<Rightarrow> Inl e
      | Inr (x, st1) \<Rightarrow>
          (case randrange R st1 1 (height - 1) of
             Inl e \<Rightarrow> Inl e
           | Inr (y, st2) \<Rightarrow>
               (case fst ms (x, y) of
                  None \<Rightarrow> Inl KeyError
                | Some v \<Rightarrow>
                    add_loops R width height k
                      (if v = WALL then (fst ms)((x, y) \<mapsto> EMPTY) else fst ms, st2))))"

definition all_wall :: "int \<Rightarrow> int \<Rightarrow> grid" where
  "all_wall width height = (\<lambda>c. if in_bounds width height c then Some WALL else None)"

definition generate_maze ::
  "'r random_src \<Rightarrow> 'r \<Rightarrow> int \<Rightarrow> int \<Rightarrow> int \<Rightarrow> int \<Rightarrow> (error + grid \<times> 'r) option" where
  "generate_maze R st0 width height seed loops =
     (let st1 = rnd_seed R seed;
          s0 = \<lparr>g_maze = all_wall width height, visited = {(1, 1)}, rng = st1\<rparr>
      in case visit R width height 1 1 s0 of
           None \<Rightarrow> None
         | Some s \<Rightarrow> Some (add_loops R width height (nat loops) (g_maze s, rng s)))"

section \<open>Paths in the grid\<close>

definition adjacent :: "cell \<Rightarrow> cell \<Rightarrow> bool" where
  "adjacent a b \<longleftrightarrow> \<bar>fst a - fst b\<bar> + \<bar>snd a - snd b\<bar> = 1"

definition open_cell :: "grid \<Rightarrow> int \<Rightarrow> int \<Rightarrow> cell \<Rightarrow> bool" where
  "open_cell m w h c \<longleftrightarrow> in_bounds w h c \<and> (case m c of None \<Rightarrow> False | Some v \<Rightarrow> v \<noteq> WALL)"

definition step :: "grid \<Rightarrow> int \<Rightarrow> int \<Rightarrow> cell \<Rightarrow> cell \<Rightarrow> bool" where
  "step m w h a b \<longleftrightarrow> adjacent a b \<and> open_cell m w h b"

definition reachable :: "grid \<Rightarrow> int \<Rightarrow> int \<Rightarrow> cell \<Rightarrow> cell \<Rightarrow> bool" where
  "reachable m w h a b \<longleftrightarrow> (step m w h)\<^sup>*\<^sup>* a b"

definition valid_path :: "grid \<Rightarrow> int \<Rightarrow> int \<Rightarrow> cell \<Rightarrow> cell \<Rightarrow> cell list \<Rightarrow> bool" where
  "valid_path m w h start goal p \<longleftrightarrow>
     p \<noteq> [] \<and> hd p = start \<and> last p = goal \<and> successively adjacent p \<and>
     list_all (open_cell m w h) p"

lemma adjacent_dirs:
  "adjacent a b \<longleftrightarrow> (\<exists>d \<in> set dirs. b = (fst a + fst d, snd a + snd d))"
proof
  assume "adjacent a b"
  then have "(fst b - fst a, snd b - snd a) \<in> set dirs"
    unfolding adjacent_def dirs_def by (cases a, cases b) (simp, presburger)
  moreover have "b = (fst a + fst (fst b - fst a, snd b - snd a), snd a + snd (fst b - fst a, snd b - snd a))"
    by simp
  ultimately show "\<exists>d \<in> set dirs. b = (fst a + fst d, snd a + snd d)" by blast
next
  assume "\<exists>d \<in> set dirs. b = (fst a + fst d, snd a + snd d)"
  then show "adjacent a b" by (auto simp: adjacent_def dirs_def)
qed

lemma adjacent_sym: "adjacent a b \<Longrightarrow> adjacent b a"
  by (simp add: adjacent_def abs_minus_commute)

lemma dense_in_bounds:
  assumes "dense m w h" "in_bounds w h c"
  shows "m c = Some WALL \<or> m c = Some EMPTY"
proof -
  from assms(2) have "c \<in> set (cells w h)"
    by (cases c) (force simp: cells_def in_bounds_def)
  with assms(1) show ?thesis by (simp add: dense_def list_all_iff)
qed

lemma EMPTY_neq_WALL: "EMPTY \<noteq> WALL"
  by (simp add: EMPTY_def WALL_def)

subsection \<open>The reconstruction loop\<close>

inductive chain :: "(cell \<rightharpoonup> cell option) \<Rightarrow> cell \<Rightarrow> cell list \<Rightarrow> bool" for ps where
  chain_stop: "dict_get ps n = None \<Longrightarrow> chain ps n [n]"
| chain_next: "dict_get ps n = Some c \<Longrightarrow> chain ps c p \<Longrightarrow> chain ps n (n # p)"

lemma walk_chain:
  assumes "chain ps n p"
  shows "walk ps (Some n) acc = Some (acc @ p)"
  using assms
proof (induction arbitrary: acc rule: chain.induct)
  case (chain_stop n)
  then show ?case by (simp add: walk.simps[of ps "Some n"] walk.simps[of ps None])
next
  case (chain_next n c p)
  from chain_next.IH[of "acc @ [n]"] chain_next.hyps(1) show ?case
    by (simp add: walk.simps[of ps "Some n"])
qed

lemma reconstruct_chain: "chain ps goal p \<Longrightarrow> reconstruct ps goal = Some (rev p)"
  by (simp add: reconstruct_def walk_chain[of ps goal p "[]", simplified])

lemma chain_exists:
  assumes "\<And>n c. ps n = Some (Some c) \<Longrightarrow> (d c :: nat) < d n"
  shows "\<exists>p. chain ps n p"
proof (induction "d n" arbitrary: n rule: less_induct)
  case less
  show ?case
  proof (cases "dict_get ps n")
    case None
    then show ?thesis by (blast intro: chain_stop)
  next
    case (Some c)
    then have "ps n = Some (Some c)" by (auto simp: dict_get_def split: option.splits)
    from assms[OF this] have "d c < d n" .
    from less[OF this] obtain p where "chain ps c p" by blast
    with Some show ?thesis by (blast intro: chain_next)
  qed
qed

lemma chain_hd: "chain ps n p \<Longrightarrow> p \<noteq> [] \<and> hd p = n"
  by (induction rule: chain.induct) auto

lemma chain_unreached: "ps n = None \<Longrightarrow> chain ps n p \<Longrightarrow> p = [n]"
  by (erule chain.cases) (auto simp: dict_get_def)

lemma chain_last:
  assumes "chain ps n p" "ps n \<noteq> None"
    and "\<And>a b. ps a = Some (Some b) \<Longrightarrow> ps b \<noteq> None"
  shows "ps (last p) = Some None"
  using assms(1,2)
proof (induction rule: chain.induct)
  case (chain_stop n)
  then show ?case by (auto simp: dict_get_def split: option.splits)
next
  case (chain_next n c p)
  then have "ps n = Some (Some c)" by (auto simp: dict_get_def split: option.splits)
  from assms(3)[OF this] chain_next.IH chain_hd[OF chain_next.hyps(2)]
  show ?case by simp
qed

lemma chain_links:
  assumes "chain ps n p"
    and "\<And>a b. ps a = Some (Some b) \<Longrightarrow> R b a"
  shows "successively (\<lambda>a b. R b a) p"
  using assms(1)
proof (induction rule: chain.induct)
  case (chain_stop n) show ?case by simp
next
  case (chain_next n c p)
  then have "ps n = Some (Some c)" by (auto simp: dict_get_def split: option.splits)
  from assms(2)[OF this] have "R c n" .
  with chain_next.IH chain_hd[OF chain_next.hyps(2)] show ?case
    by (cases p) auto
qed

lemma chain_length:
  assumes "chain ps n p"
    and "\<And>a b. ps a = Some (Some b) \<Longrightarrow> Suc (d b) \<le> d a"
  shows "length p \<le> Suc (d n)"
  using assms(1)
proof (induction rule: chain.induct)
  case (chain_stop n) show ?case by simp
next
  case (chain_next n c p)
  then have "ps n = Some (Some c)" by (auto simp: dict_get_def split: option.splits)
  from assms(2)[OF this] chain_next.IH show ?case by simp
qed

lemma successively_rev: "successively R (rev p) \<longleftrightarrow> successively (\<lambda>a b. R b a) p"
  by (induction p rule: induct_list012) (auto simp: successively_append_iff successively_Cons)

subsection \<open>What one pass over the four directions does\<close>

definition nbr :: "cell \<Rightarrow> int \<times> int \<Rightarrow> cell" where
  "nbr c d = (fst c + fst d, snd c + snd d)"

lemma step_nbr: "step m w h a b \<longleftrightarrow> (\<exists>d \<in> set dirs. b = nbr a d) \<and> open_cell m w h b"
  by (simp add: step_def adjacent_dirs nbr_def)

lemma discover_Inr:
  assumes "discover w h c s d = Inr s'"
  shows "maze s' = maze s \<and>
    (if open_cell (maze s) w h (nbr c d) \<and> parents s (nbr c d) = None
     then parents s' = (parents s)(nbr c d \<mapsto> Some c) \<and> frontier s' = frontier s @ [nbr c d]
     else parents s' = parents s \<and> frontier s' = frontier s)"
proof (cases "maze s (nbr c d)")
  case None
  with assms show ?thesis
    by (auto simp: discover_def Let_def nbr_def open_cell_def in_bounds_def split: if_splits)
next
  case (Some v)
  with assms show ?thesis
    by (auto simp: discover_def Let_def nbr_def open_cell_def in_bounds_def split: if_splits)
qed

lemma foldE_discover_result:
  assumes "foldE (discover w h c) ds s = Inr s'"
  shows "\<exists>ns. maze s' = maze s \<and> frontier s' = frontier s @ ns \<and>
           (\<forall>x. parents s' x = (if x \<in> set ns then Some (Some c) else parents s x)) \<and>
           (\<forall>n \<in> set ns. parents s n = None \<and> open_cell (maze s) w h n \<and> n \<in> nbr c ` set ds) \<and>
           (\<forall>d \<in> set ds. open_cell (maze s) w h (nbr c d) \<longrightarrow> parents s' (nbr c d) \<noteq> None)"
  using assms
proof (induction ds arbitrary: s)
  case Nil
  then show ?case by (intro exI[of _ "[]"]) simp
next
  case (Cons d ds)
  from Cons.prems obtain s1 where 1: "discover w h c s d = Inr s1"
    and 2: "foldE (discover w h c) ds s1 = Inr s'"
    by (auto split: sum.splits)
  from Cons.IH[OF 2] obtain ns where ns:
    "maze s' = maze s1" "frontier s' = frontier s1 @ ns"
    "\<And>x. parents s' x = (if x \<in> set ns then Some (Some c) else parents s1 x)"
    "\<forall>n \<in> set ns. parents s1 n = None \<and> open_cell (maze s1) w h n \<and> n \<in> nbr c ` set ds"
    "\<forall>d \<in> set ds. open_cell (maze s1) w h (nbr c d) \<longrightarrow> parents s' (nbr c d) \<noteq> None"
    by blast
  note d = discover_Inr[OF 1]
  show ?case
  proof (cases "open_cell (maze s) w h (nbr c d) \<and> parents s (nbr c d) = None")
    case True
    with d have s1: "maze s1 = maze s" "parents s1 = (parents s)(nbr c d \<mapsto> Some c)"
      "frontier s1 = frontier s @ [nbr c d]" by simp_all
    show ?thesis
    proof (intro exI[of _ "nbr c d # ns"] conjI allI)
      show "maze s' = maze s" using ns(1) s1(1) by simp
      show "frontier s' = frontier s @ nbr c d # ns" using ns(2) s1(3) by simp
      show "parents s' x = (if x \<in> set (nbr c d # ns) then Some (Some c) else parents s x)" for x
        by (simp add: ns(3) s1(2))
      show "\<forall>n \<in> set (nbr c d # ns). parents s n = None \<and> open_cell (maze s) w h n \<and> n \<in> nbr c ` set (d # ds)"
        using ns(4) s1 True by (auto split: if_splits)
      show "\<forall>d \<in> set (d # ds). open_cell (maze s) w h (nbr c d) \<longrightarrow> parents s' (nbr c d) \<noteq> None"
        using ns(5) s1 by (auto simp: ns(3))
    qed
  next
    case False
    with d have s1: "maze s1 = maze s" "parents s1 = parents s" "frontier s1 = frontier s"
      by simp_all
    show ?thesis
    proof (intro exI[of _ ns] conjI allI)
      show "maze s' = maze s" using ns(1) s1(1) by simp
      show "frontier s' = frontier s @ ns" using ns(2) s1(3) by simp
      show "parents s' x = (if x \<in> set ns then Some (Some c) else parents s x)" for x
        by (simp add: ns(3) s1(2))
      show "\<forall>n \<in> set ns. parents s n = None \<and> open_cell (maze s) w h n \<and> n \<in> nbr c ` set (d # ds)"
        using ns(4) s1 by auto
      show "\<forall>d \<in> set (d # ds). open_cell (maze s) w h (nbr c d) \<longrightarrow> parents s' (nbr c d) \<noteq> None"
        using ns(5) s1 False by (auto simp: ns(3))
    qed
  qed
qed

lemma discover_no_error:
  assumes "dense (maze s) w h"
  shows "\<exists>s'. discover w h c s d = Inr s'"
proof (cases "in_bounds w h (nbr c d)")
  case True
  from dense_in_bounds[OF assms True] show ?thesis
    using True by (auto simp: discover_def Let_def nbr_def in_bounds_def)
next
  case False
  then show ?thesis by (auto simp: discover_def Let_def nbr_def in_bounds_def)
qed

lemma foldE_discover_no_error:
  assumes "dense (maze s) w h"
  shows "\<exists>s'. foldE (discover w h c) ds s = Inr s'"
  using assms
proof (induction ds arbitrary: s)
  case Nil show ?case by simp
next
  case (Cons d ds)
  from discover_no_error[OF Cons.prems] obtain s1 where 1: "discover w h c s d = Inr s1" by blast
  from discover_Inr[OF 1] Cons.prems have "dense (maze s1) w h" by simp
  from Cons.IH[OF this] 1 show ?case by simp
qed

subsection \<open>The invariant of the two uninformed searches\<close>

text \<open>
  \<open>d\<close> is a ghost depth: the number of predecessor links from a cell back to \<open>start\<close>.
  A discovered cell that has left the frontier has all its open neighbours discovered.
\<close>

definition search_inv :: "grid \<Rightarrow> int \<Rightarrow> int \<Rightarrow> cell \<Rightarrow> (cell \<Rightarrow> nat) \<Rightarrow> search_state \<Rightarrow> bool" where
  "search_inv m w h start d s \<longleftrightarrow>
     maze s = m \<and> parents s start = Some None \<and> d start = 0 \<and>
     (\<forall>n. parents s n = Some None \<longrightarrow> n = start) \<and>
     (\<forall>n c. parents s n = Some (Some c) \<longrightarrow>
        step m w h c n \<and> parents s c \<noteq> None \<and> d n = Suc (d c)) \<and>
     (\<forall>c \<in> set (frontier s). parents s c \<noteq> None) \<and>
     (\<forall>u n. parents s u \<noteq> None \<longrightarrow> u \<notin> set (frontier s) \<longrightarrow> step m w h u n \<longrightarrow>
        parents s n \<noteq> None)"

lemma search_inv_init:
  "search_inv m w h start (\<lambda>_. 0) \<lparr>maze = m, frontier = [start], parents = [start \<mapsto> None]\<rparr>"
  by (simp add: search_inv_def)

lemma search_inv_expand:
  assumes inv: "search_inv m w h start d s"
    and c: "c \<in> set (frontier s)"
    and rest: "set rest \<subseteq> set (frontier s)" "set (frontier s) \<subseteq> insert c (set rest)"
    and fold: "foldE (discover w h c) dirs (s\<lparr>frontier := rest\<rparr>) = Inr s'"
  shows "\<exists>ns. frontier s' = rest @ ns \<and>
           (\<forall>x. parents s' x = (if x \<in> set ns then Some (Some c) else parents s x)) \<and>
           (\<forall>n \<in> set ns. parents s n = None) \<and>
           search_inv m w h start (\<lambda>x. if x \<in> set ns then Suc (d c) else d x) s'"
proof -
  from foldE_discover_result[OF fold]
  have "\<exists>ns. maze s' = maze s \<and> frontier s' = rest @ ns \<and>
           (\<forall>x. parents s' x = (if x \<in> set ns then Some (Some c) else parents s x)) \<and>
           (\<forall>n \<in> set ns. parents s n = None \<and> open_cell (maze s) w h n \<and> n \<in> nbr c ` set dirs) \<and>
           (\<forall>d \<in> set dirs. open_cell (maze s) w h (nbr c d) \<longrightarrow> parents s' (nbr c d) \<noteq> None)"
    by (simp cong: if_cong)
  then obtain ns where
    mz: "maze s' = maze s" and fr: "frontier s' = rest @ ns"
    and ps: "\<And>x. parents s' x = (if x \<in> set ns then Some (Some c) else parents s x)"
    and new: "\<forall>n \<in> set ns. parents s n = None \<and> open_cell (maze s) w h n \<and> n \<in> nbr c ` set dirs"
    and all: "\<forall>d \<in> set dirs. open_cell (maze s) w h (nbr c d) \<longrightarrow> parents s' (nbr c d) \<noteq> None"
    by blast
  let ?d = "\<lambda>x. if x \<in> set ns then Suc (d c) else d x"
  from inv have m: "maze s = m" and st: "parents s start = Some None" and d0: "d start = 0"
    and root: "\<And>n. parents s n = Some None \<Longrightarrow> n = start"
    and link: "\<And>n c. parents s n = Some (Some c) \<Longrightarrow>
        step m w h c n \<and> parents s c \<noteq> None \<and> d n = Suc (d c)"
    and fro: "\<And>c. c \<in> set (frontier s) \<Longrightarrow> parents s c \<noteq> None"
    and clo: "\<And>u n. parents s u \<noteq> None \<Longrightarrow> u \<notin> set (frontier s) \<Longrightarrow> step m w h u n \<Longrightarrow>
        parents s n \<noteq> None"
    unfolding search_inv_def by blast+
  have notin: "\<And>x. parents s x \<noteq> None \<Longrightarrow> x \<notin> set ns" using new by auto
  have cns: "c \<notin> set ns" using fro[OF c] notin by blast
  have "search_inv m w h start ?d s'"
    unfolding search_inv_def
  proof (intro conjI allI impI ballI)
    show "maze s' = m" using mz m by simp
    show "parents s' start = Some None" using st notin[of start] by (simp add: ps)
    show "?d start = 0" using st notin[of start] d0 by simp
  next
    fix n assume "parents s' n = Some None"
    then show "n = start" using root[of n] by (simp add: ps split: if_splits)
  next
    fix n c' assume a: "parents s' n = Some (Some c')"
    show "step m w h c' n"
    proof (cases "n \<in> set ns")
      case True
      with a have "c' = c" by (simp add: ps)
      with new True m show ?thesis by (auto simp: step_nbr)
    next
      case False
      with a link[of n c'] show ?thesis by (simp add: ps)
    qed
    show "parents s' c' \<noteq> None"
    proof (cases "n \<in> set ns")
      case True
      with a have "c' = c" by (simp add: ps)
      with fro[OF c] cns show ?thesis by (simp add: ps)
    next
      case False
      with a link[of n c'] show ?thesis by (simp add: ps)
    qed
    show "?d n = Suc (?d c')"
    proof (cases "n \<in> set ns")
      case True
      with a have "c' = c" by (simp add: ps)
      with True cns show ?thesis by simp
    next
      case False
      with a have "parents s n = Some (Some c')" by (simp add: ps)
      from link[OF this] notin[of c'] False show ?thesis by simp
    qed
  next
    fix x assume "x \<in> set (frontier s')"
    then show "parents s' x \<noteq> None" using rest(1) fro[of x] by (auto simp: fr ps)
  next
    fix u n assume u: "parents s' u \<noteq> None" "u \<notin> set (frontier s')" and stp: "step m w h u n"
    from u have uns: "u \<notin> set ns" and ur: "u \<notin> set rest" by (simp_all add: fr)
    with u have pu: "parents s u \<noteq> None" by (simp add: ps)
    show "parents s' n \<noteq> None"
    proof (cases "u \<in> set (frontier s)")
      case False
      from clo[OF pu False stp] show ?thesis by (simp add: ps)
    next
      case True
      with rest(2) ur have "u = c" by auto
      with stp all m show ?thesis by (auto simp: step_nbr)
    qed
  qed
  with fr ps new show ?thesis by blast
qed

subsection \<open>The loops return, and where they stop\<close>

lemma bfs_loop_no_error:
  assumes "dense (maze s) w h"
  shows "\<exists>s'. bfs_loop w h goal s = Inr s'"
  using assms
proof (induction w h goal s rule: bfs_loop.induct)
  case (1 w h goal s)
  show ?case
  proof (cases "frontier s")
    case Nil
    then show ?thesis by (simp add: bfs_loop.simps[of w h goal s])
  next
    case (Cons c q)
    show ?thesis
    proof (cases "c = goal")
      case True
      with Cons show ?thesis by (simp add: bfs_loop.simps[of w h goal s])
    next
      case False
      have "dense (maze (s\<lparr>frontier := q\<rparr>)) w h" using "1.prems" by simp
      from foldE_discover_no_error[OF this] obtain s1
        where f: "foldE (discover w h c) dirs (s\<lparr>frontier := q\<rparr>) = Inr s1" by blast
      from foldE_discover_result[OF f] "1.prems" have "dense (maze s1) w h" by auto
      from "1.IH"[OF Cons False f this] obtain s' where "bfs_loop w h goal s1 = Inr s'" by blast
      with Cons False f show ?thesis by (simp add: bfs_loop.simps[of w h goal s])
    qed
  qed
qed

lemma dfs_loop_no_error:
  assumes "dense (maze s) w h"
  shows "\<exists>s'. dfs_loop w h goal s = Inr s'"
  using assms
proof (induction w h goal s rule: dfs_loop.induct)
  case (1 w h goal s)
  show ?case
  proof (cases "frontier s = []")
    case True
    then show ?thesis by (simp add: dfs_loop.simps[of w h goal s])
  next
    case ne: False
    let ?c = "last (frontier s)"
    let ?s1 = "s\<lparr>frontier := butlast (frontier s)\<rparr>"
    show ?thesis
    proof (cases "?c = goal")
      case True
      with ne show ?thesis by (simp add: dfs_loop.simps[of w h goal s])
    next
      case False
      have "dense (maze ?s1) w h" using "1.prems" by simp
      from foldE_discover_no_error[OF this] obtain s2
        where f: "foldE (discover w h ?c) dirs ?s1 = Inr s2" by blast
      from foldE_discover_result[OF f] "1.prems" have "dense (maze s2) w h" by auto
      from "1.IH"[OF ne refl refl False f this] obtain s' where "dfs_loop w h goal s2 = Inr s'" by blast
      with ne False f show ?thesis by (simp add: dfs_loop.simps[of w h goal s])
    qed
  qed
qed

lemma dfs_loop_exit:
  assumes "search_inv m w h start d s" "dfs_loop w h goal s = Inr s'"
  shows "\<exists>d' s0. search_inv m w h start d' s0 \<and> parents s' = parents s0 \<and> maze s' = m \<and>
           (frontier s0 = [] \<or> last (frontier s0) = goal)"
  using assms
proof (induction w h goal s arbitrary: d rule: dfs_loop.induct)
  case (1 w h goal s)
  from "1.prems"(1) have m: "maze s = m" by (simp add: search_inv_def)
  show ?case
  proof (cases "frontier s = []")
    case True
    with "1.prems"(2) have "s' = s" by (simp add: dfs_loop.simps[of w h goal s])
    then have "search_inv m w h start d s \<and> parents s' = parents s \<and> maze s' = m \<and>
           (frontier s = [] \<or> last (frontier s) = goal)"
      using "1.prems"(1) True m by blast
    then show ?thesis by blast
  next
    case ne: False
    let ?c = "last (frontier s)"
    let ?s1 = "s\<lparr>frontier := butlast (frontier s)\<rparr>"
    show ?thesis
    proof (cases "?c = goal")
      case True
      with ne "1.prems"(2) have "s' = ?s1" by (simp add: dfs_loop.simps[of w h goal s])
      then have e: "parents s' = parents s" "maze s' = m" using m by simp_all
      have "search_inv m w h start d s \<and> parents s' = parents s \<and> maze s' = m \<and>
           (frontier s = [] \<or> last (frontier s) = goal)"
        using "1.prems"(1) e True by blast
      then show ?thesis by blast
    next
      case False
      from ne False "1.prems"(2)
      have "(case foldE (discover w h ?c) dirs ?s1 of Inl e \<Rightarrow> Inl e
              | Inr s2 \<Rightarrow> dfs_loop w h goal s2) = Inr s'"
        by (simp add: dfs_loop.simps[of w h goal s] Let_def)
      then obtain s2 where f: "foldE (discover w h ?c) dirs ?s1 = Inr s2"
        and l: "dfs_loop w h goal s2 = Inr s'"
        by (cases "foldE (discover w h ?c) dirs ?s1") auto
      have c: "?c \<in> set (frontier s)" using ne by simp
      have r1: "set (butlast (frontier s)) \<subseteq> set (frontier s)" by (auto dest: in_set_butlastD)
      have r2: "set (frontier s) \<subseteq> insert ?c (set (butlast (frontier s)))"
        using ne by (cases "frontier s" rule: rev_cases) auto
      from search_inv_expand[OF "1.prems"(1) c r1 r2 f] obtain ns where
        "search_inv m w h start (\<lambda>x. if x \<in> set ns then Suc (d ?c) else d x) s2" by blast
      from "1.IH"[OF ne refl refl False f this l] show ?thesis .
    qed
  qed
qed

subsection \<open>The order of the queue of bfs\<close>

definition bfs_order :: "grid \<Rightarrow> int \<Rightarrow> int \<Rightarrow> (cell \<Rightarrow> nat) \<Rightarrow> search_state \<Rightarrow> bool" where
  "bfs_order m w h d s \<longleftrightarrow>
     sorted (map d (frontier s)) \<and>
     (\<forall>a \<in> set (frontier s). \<forall>b \<in> set (frontier s). d b \<le> Suc (d a)) \<and>
     (\<forall>u. parents s u \<noteq> None \<longrightarrow> u \<notin> set (frontier s) \<longrightarrow>
        (\<forall>q \<in> set (frontier s). d u \<le> d q) \<and> (\<forall>n. step m w h u n \<longrightarrow> d n \<le> Suc (d u)))"

lemma bfs_order_init:
  "bfs_order m w h (\<lambda>_. 0) \<lparr>maze = m, frontier = [start], parents = [start \<mapsto> None]\<rparr>"
  by (simp add: bfs_order_def)

lemma sorted_map_const: "sorted (map (\<lambda>_. k :: nat) xs)"
  by (induction xs) auto

lemma bfs_order_expand:
  assumes inv: "search_inv m w h start d s" and ord: "bfs_order m w h d s"
    and fr: "frontier s = c # q"
    and fr': "frontier s' = q @ ns"
    and ps: "\<And>x. parents s' x = (if x \<in> set ns then Some (Some c) else parents s x)"
    and new: "\<forall>n \<in> set ns. parents s n = None"
    and inv': "search_inv m w h start (\<lambda>x. if x \<in> set ns then Suc (d c) else d x) s'"
  shows "bfs_order m w h (\<lambda>x. if x \<in> set ns then Suc (d c) else d x) s'"
proof -
  let ?d = "\<lambda>x. if x \<in> set ns then Suc (d c) else d x"
  from inv have fro: "\<And>x. x \<in> set (frontier s) \<Longrightarrow> parents s x \<noteq> None"
    and clo: "\<And>u n. parents s u \<noteq> None \<Longrightarrow> u \<notin> set (frontier s) \<Longrightarrow> step m w h u n \<Longrightarrow>
        parents s n \<noteq> None"
    unfolding search_inv_def by blast+
  from inv' have clo': "\<And>u n. parents s' u \<noteq> None \<Longrightarrow> u \<notin> set (frontier s') \<Longrightarrow> step m w h u n \<Longrightarrow>
        parents s' n \<noteq> None"
    unfolding search_inv_def by blast
  from ord have srt: "sorted (map d (c # q))"
    and near: "\<And>a b. a \<in> set (c # q) \<Longrightarrow> b \<in> set (c # q) \<Longrightarrow> d b \<le> Suc (d a)"
    and low: "\<And>u x. parents s u \<noteq> None \<Longrightarrow> u \<notin> set (c # q) \<Longrightarrow> x \<in> set (c # q) \<Longrightarrow> d u \<le> d x"
    and edge: "\<And>u n. parents s u \<noteq> None \<Longrightarrow> u \<notin> set (c # q) \<Longrightarrow> step m w h u n \<Longrightarrow> d n \<le> Suc (d u)"
    unfolding bfs_order_def fr by blast+
  have notin: "\<And>x. parents s x \<noteq> None \<Longrightarrow> x \<notin> set ns" using new by auto
  have qd: "\<And>x. x \<in> set q \<Longrightarrow> ?d x = d x" using fro notin by (simp add: fr)
  have cq: "\<And>x. x \<in> set q \<Longrightarrow> d c \<le> d x" using srt by auto
  have cd: "?d c = d c" using fro[of c] notin by (simp add: fr)
  have mapq: "map ?d q = map d q" using qd by simp
  have mapn: "\<And>x. x \<in> set ns \<Longrightarrow> ?d x = Suc (d c)" by simp
  show ?thesis
    unfolding bfs_order_def fr'
  proof (intro conjI ballI allI impI)
    have 1: "sorted (map d q)" using srt by simp
    have 2: "\<forall>x \<in> set q. d x \<le> Suc (d c)" using near[of c] by simp
    have 3: "map ?d ns = map (\<lambda>_. Suc (d c)) ns" by simp
    have "sorted (map d q @ map (\<lambda>_. Suc (d c)) ns)"
      using 1 2 sorted_map_const[of "Suc (d c)" ns] by (auto simp: sorted_append)
    then show "sorted (map ?d (q @ ns))"
      unfolding map_append mapq 3 .
  next
    fix a b assume ab: "a \<in> set (q @ ns)" "b \<in> set (q @ ns)"
    have 1: "d c \<le> ?d a" using ab(1) cq[of a] qd[of a] by (cases "a \<in> set ns") auto
    have 2: "?d b \<le> Suc (d c)" using ab(2) near[of c b] qd[of b] by (cases "b \<in> set ns") auto
    from 1 2 show "?d b \<le> Suc (?d a)" by linarith
  next
    fix u x assume u: "parents s' u \<noteq> None" "u \<notin> set (q @ ns)" and x: "x \<in> set (q @ ns)"
    from u have pu: "parents s u \<noteq> None" and uq: "u \<notin> set q" and un: "u \<notin> set ns"
      by (simp_all add: ps split: if_splits)
    have du: "?d u \<le> d c"
    proof (cases "u = c")
      case True then show ?thesis using un by simp
    next
      case False
      with uq have "u \<notin> set (c # q)" by simp
      from low[OF pu this, of c] un show ?thesis by simp
    qed
    have "d c \<le> ?d x" using x cq[of x] qd[of x] by (cases "x \<in> set ns") auto
    with du show "?d u \<le> ?d x" by linarith
  next
    fix u n assume u: "parents s' u \<noteq> None" "u \<notin> set (q @ ns)" and stp: "step m w h u n"
    from u have pu: "parents s u \<noteq> None" and uq: "u \<notin> set q" and un: "u \<notin> set ns"
      by (simp_all add: ps split: if_splits)
    have u': "u \<notin> set (frontier s')" using u(2) fr' by simp
    show "?d n \<le> Suc (?d u)"
    proof (cases "u = c")
      case False
      with uq have nf: "u \<notin> set (c # q)" by simp
      then have "u \<notin> set (frontier s)" by (simp add: fr)
      from clo[OF pu this stp] have "n \<notin> set ns" using notin by blast
      with edge[OF pu nf stp] un show ?thesis by simp
    next
      case True
      show ?thesis
      proof (cases "n \<in> set ns")
        case True
        with \<open>u = c\<close> un show ?thesis by simp
      next
        case False
        from clo'[OF u(1) u' stp] False have pn: "parents s n \<noteq> None" by (simp add: ps)
        have "d n \<le> Suc (d c)"
        proof (cases "n \<in> set (c # q)")
          case True
          from near[of c n] True show ?thesis by simp
        next
          case False
          from low[OF pn False, of c] show ?thesis by simp
        qed
        with False \<open>u = c\<close> un show ?thesis by simp
      qed
    qed
  qed
qed

lemma bfs_loop_exit:
  assumes "search_inv m w h start d s" "bfs_order m w h d s" "bfs_loop w h goal s = Inr s'"
  shows "\<exists>d' s0. search_inv m w h start d' s0 \<and> bfs_order m w h d' s0 \<and>
           parents s' = parents s0 \<and> maze s' = m \<and>
           (frontier s0 = [] \<or> hd (frontier s0) = goal)"
  using assms
proof (induction w h goal s arbitrary: d rule: bfs_loop.induct)
  case (1 w h goal s)
  from "1.prems"(1) have m: "maze s = m" by (simp add: search_inv_def)
  show ?case
  proof (cases "frontier s")
    case Nil
    with "1.prems"(3) have "s' = s" by (simp add: bfs_loop.simps[of w h goal s])
    then have "search_inv m w h start d s \<and> bfs_order m w h d s \<and> parents s' = parents s \<and>
        maze s' = m \<and> (frontier s = [] \<or> hd (frontier s) = goal)"
      using "1.prems"(1,2) Nil m by blast
    then show ?thesis by blast
  next
    case (Cons c q)
    show ?thesis
    proof (cases "c = goal")
      case True
      with Cons "1.prems"(3) have "s' = s\<lparr>frontier := q\<rparr>"
        by (simp add: bfs_loop.simps[of w h goal s])
      then have e: "parents s' = parents s" "maze s' = m" using m by simp_all
      have "search_inv m w h start d s \<and> bfs_order m w h d s \<and> parents s' = parents s \<and>
          maze s' = m \<and> (frontier s = [] \<or> hd (frontier s) = goal)"
        using "1.prems"(1,2) e True Cons by simp
      then show ?thesis by blast
    next
      case False
      from Cons False "1.prems"(3)
      have "(case foldE (discover w h c) dirs (s\<lparr>frontier := q\<rparr>) of Inl e \<Rightarrow> Inl e
              | Inr s2 \<Rightarrow> bfs_loop w h goal s2) = Inr s'"
        by (simp add: bfs_loop.simps[of w h goal s])
      then obtain s2 where f: "foldE (discover w h c) dirs (s\<lparr>frontier := q\<rparr>) = Inr s2"
        and l: "bfs_loop w h goal s2 = Inr s'"
        by (cases "foldE (discover w h c) dirs (s\<lparr>frontier := q\<rparr>)") auto
      have c: "c \<in> set (frontier s)" "set q \<subseteq> set (frontier s)"
        "set (frontier s) \<subseteq> insert c (set q)" using Cons by auto
      from search_inv_expand[OF "1.prems"(1) c f] obtain ns where
        ns: "frontier s2 = q @ ns"
        "\<And>x. parents s2 x = (if x \<in> set ns then Some (Some c) else parents s x)"
        "\<forall>n \<in> set ns. parents s n = None"
        "search_inv m w h start (\<lambda>x. if x \<in> set ns then Suc (d c) else d x) s2"
        by blast
      from bfs_order_expand[OF "1.prems"(1,2) Cons ns]
      have "bfs_order m w h (\<lambda>x. if x \<in> set ns then Suc (d c) else d x) s2" .
      from "1.IH"[OF Cons False f ns(4) this l] show ?thesis .
    qed
  qed
qed

subsection \<open>What the predecessor map of a finished search gives\<close>

lemma chain_length_eq:
  assumes "chain ps n p" "ps n \<noteq> None"
    and "\<And>a b. ps a = Some (Some b) \<Longrightarrow> ps b \<noteq> None \<and> d a = Suc (d b)"
    and "\<And>a. ps a = Some None \<Longrightarrow> d a = (0::nat)"
  shows "length p = Suc (d n)"
  using assms(1,2)
proof (induction rule: chain.induct)
  case (chain_stop n)
  then have "ps n = Some None" by (auto simp: dict_get_def split: option.splits)
  from assms(4)[OF this] show ?case by simp
next
  case (chain_next n c p)
  then have "ps n = Some (Some c)" by (auto simp: dict_get_def split: option.splits)
  from assms(3)[OF this] chain_next.IH show ?case by simp
qed

lemma search_inv_chain_ex:
  assumes "search_inv m w h start d s"
  shows "\<exists>p. chain (parents s) goal p"
proof -
  from assms have link: "\<And>n c. parents s n = Some (Some c) \<Longrightarrow>
        step m w h c n \<and> parents s c \<noteq> None \<and> d n = Suc (d c)"
    unfolding search_inv_def by blast
  have lt: "d c < d n" if "parents s n = Some (Some c)" for n c
    using link[OF that] by simp
  from chain_exists[of "parents s" d goal, OF lt] show ?thesis .
qed

lemma search_inv_chain:
  assumes "search_inv m w h start d s" and p: "chain (parents s) goal p"
  shows "reconstruct (parents s) goal = Some (rev p)"
    and "parents s goal = None \<Longrightarrow> p = [goal]"
    and "parents s goal \<noteq> None \<Longrightarrow> hd (rev p) = start"
    and "parents s goal \<noteq> None \<Longrightarrow> successively (step m w h) (rev p)"
    and "parents s goal \<noteq> None \<Longrightarrow> length p = Suc (d goal)"
proof -
  from assms have st: "parents s start = Some None" and d0: "d start = 0"
    and root: "\<And>n. parents s n = Some None \<Longrightarrow> n = start"
    and link: "\<And>n c. parents s n = Some (Some c) \<Longrightarrow>
        step m w h c n \<and> parents s c \<noteq> None \<and> d n = Suc (d c)"
    unfolding search_inv_def by blast+
  show "reconstruct (parents s) goal = Some (rev p)" by (rule reconstruct_chain[OF p])
  show "parents s goal = None \<Longrightarrow> p = [goal]" using chain_unreached[OF _ p] by blast
  {
    assume g: "parents s goal \<noteq> None"
    have "parents s (last p) = Some None"
    proof (rule chain_last[OF p g])
      fix a b assume "parents s a = Some (Some b)"
      from link[OF this] show "parents s b \<noteq> None" by simp
    qed
    from root[OF this] chain_hd[OF p] show "hd (rev p) = start" by (simp add: hd_rev)
    have "successively (\<lambda>a b. step m w h b a) p"
    proof (rule chain_links[OF p])
      fix a b assume "parents s a = Some (Some b)"
      from link[OF this] show "step m w h b a" by simp
    qed
    then show "successively (step m w h) (rev p)" by (simp add: successively_rev)
    show "length p = Suc (d goal)"
    proof (rule chain_length_eq[OF p g])
      fix a b assume "parents s a = Some (Some b)"
      from link[OF this] show "parents s b \<noteq> None \<and> d a = Suc (d b)" by simp
    next
      fix a assume "parents s a = Some None"
      from root[OF this] d0 show "d a = 0" by simp
    qed
  }
qed

lemma search_inv_sound:
  assumes "search_inv m w h start d s" "parents s n \<noteq> None"
  shows "reachable m w h start n"
  using assms(2)
proof (induction "d n" arbitrary: n rule: less_induct)
  case less
  from assms(1) have root: "\<And>n. parents s n = Some None \<Longrightarrow> n = start"
    and link: "\<And>n c. parents s n = Some (Some c) \<Longrightarrow>
        step m w h c n \<and> parents s c \<noteq> None \<and> d n = Suc (d c)"
    unfolding search_inv_def by blast+
  from less.prems obtain v where v: "parents s n = Some v" by blast
  show ?case
  proof (cases v)
    case None
    with v root have "n = start" by simp
    then show ?thesis by (simp add: reachable_def)
  next
    case (Some c)
    with v link[of n c] have l: "step m w h c n" "parents s c \<noteq> None" "d c < d n" by simp_all
    from less.hyps[OF l(3) l(2)] l(1) show ?thesis
      unfolding reachable_def by (rule rtranclp.rtrancl_into_rtrancl)
  qed
qed

lemma search_inv_complete:
  assumes inv: "search_inv m w h start d s"
    and ex: "frontier s = [] \<or> goal \<in> set (frontier s)"
    and r: "reachable m w h start goal"
  shows "parents s goal \<noteq> None"
proof (cases "frontier s = []")
  case False
  with ex inv show ?thesis unfolding search_inv_def by blast
next
  case True
  from inv have st: "parents s start \<noteq> None" unfolding search_inv_def by simp
  from inv have A: "\<forall>u n. parents s u \<noteq> None \<longrightarrow> u \<notin> set (frontier s) \<longrightarrow> step m w h u n \<longrightarrow>
        parents s n \<noteq> None"
    unfolding search_inv_def by blast
  have clo: "parents s n \<noteq> None" if "parents s u \<noteq> None" "step m w h u n" for u n
    using A[rule_format, OF that(1) _ that(2)] True by simp
  from r have "(step m w h)\<^sup>*\<^sup>* start goal" by (simp add: reachable_def)
  then show ?thesis
  proof (induction rule: rtranclp_induct)
    case base show ?case by (rule st)
  next
    case (step y z)
    from clo[OF step.IH step.hyps(2)] show ?case .
  qed
qed

lemma bfs_shortest:
  assumes inv: "search_inv m w h start d s" and ord: "bfs_order m w h d s"
    and ex: "frontier s = [] \<or> hd (frontier s) = goal"
    and p: "successively (step m w h) p" "p \<noteq> []" "last p = goal" "parents s (hd p) \<noteq> None"
  shows "parents s goal \<noteq> None \<and> Suc (d goal) \<le> d (hd p) + length p"
  using p
proof (induction p rule: induct_list012)
  case 1 then show ?case by simp
next
  case (2 u) then show ?case by simp
next
  case (3 u v r)
  from inv have fro: "\<And>x. x \<in> set (frontier s) \<Longrightarrow> parents s x \<noteq> None"
    and clo: "\<And>u n. parents s u \<noteq> None \<Longrightarrow> u \<notin> set (frontier s) \<Longrightarrow> step m w h u n \<Longrightarrow>
        parents s n \<noteq> None"
    unfolding search_inv_def by blast+
  from ord have srt: "sorted (map d (frontier s))"
    and edge: "\<And>u n. parents s u \<noteq> None \<Longrightarrow> u \<notin> set (frontier s) \<Longrightarrow> step m w h u n \<Longrightarrow> d n \<le> Suc (d u)"
    unfolding bfs_order_def by blast+
  from "3.prems" have uv: "step m w h u v" and rest: "successively (step m w h) (v # r)"
    and pu: "parents s u \<noteq> None" and lst: "last (v # r) = goal" by simp_all
  show ?case
  proof (cases "u \<in> set (frontier s)")
    case True
    then obtain g q where fr: "frontier s = g # q" by (cases "frontier s") auto
    with ex have "g = goal" by simp
    with fr srt True have "d goal \<le> d u" by auto
    moreover have "parents s goal \<noteq> None" using fro[of goal] fr \<open>g = goal\<close> by simp
    ultimately show ?thesis by simp
  next
    case False
    from clo[OF pu False uv] have pv: "parents s v \<noteq> None" .
    from edge[OF pu False uv] have dv: "d v \<le> Suc (d u)" .
    from "3.IH"(2)[OF rest _ lst] pv have "parents s goal \<noteq> None \<and> Suc (d goal) \<le> d v + length (v # r)"
      by simp
    with dv show ?thesis by simp
  qed
qed

lemma valid_path_steps:
  assumes "valid_path m w h start goal p"
  shows "successively (step m w h) p \<and> p \<noteq> [] \<and> hd p = start \<and> last p = goal"
proof -
  have "successively adjacent p \<and> list_all (open_cell m w h) p \<longrightarrow> successively (step m w h) p"
    by (induction p rule: induct_list012) (simp_all add: step_def)
  with assms show ?thesis unfolding valid_path_def by blast
qed

lemma steps_reachable:
  assumes "successively (step m w h) p" "p \<noteq> []"
  shows "reachable m w h (hd p) (last p)"
  using assms
proof (induction p rule: induct_list012)
  case 1 then show ?case by simp
next
  case (2 u) then show ?case by (simp add: reachable_def)
next
  case (3 u v r)
  then have "step m w h u v" "(step m w h)\<^sup>*\<^sup>* v (last (v # r))"
    by (simp_all add: reachable_def)
  then have "(step m w h)\<^sup>*\<^sup>* u (last (v # r))" by (rule converse_rtranclp_into_rtranclp)
  then show ?case by (simp add: reachable_def)
qed

subsection \<open>One relaxation of astar\<close>

definition manhattan :: "cell \<Rightarrow> cell \<Rightarrow> int" where
  "manhattan a b = \<bar>fst a - fst b\<bar> + \<bar>snd a - snd b\<bar>"

lemma relax_Inr:
  assumes "relax w h goal c s d = Inr s'"
  shows "(\<not> open_cell (a_maze s) w h (nbr c d) \<and> s' = s) \<or>
    (\<exists>gc. g_score s c = Some gc \<and> open_cell (a_maze s) w h (nbr c d) \<and>
       ((\<exists>gn. g_score s (nbr c d) = Some gn \<and> gn \<le> Suc gc) \<and> s' = s \<or>
        (\<forall>gn. g_score s (nbr c d) = Some gn \<longrightarrow> Suc gc < gn) \<and>
        s' = s\<lparr>g_score := (g_score s)(nbr c d \<mapsto> Suc gc),
               open_set := (int (Suc gc) + manhattan (nbr c d) goal, nbr c d) # open_set s,
               a_parents := (a_parents s)(nbr c d \<mapsto> Some c)\<rparr>))"
proof (cases "a_maze s (nbr c d)")
  case None
  with assms show ?thesis
    by (simp add: relax_def Let_def nbr_def open_cell_def in_bounds_def split: if_splits)
next
  case mz: (Some v)
  show ?thesis
  proof (cases "g_score s c")
    case None
    with assms mz show ?thesis
      by (auto simp: relax_def Let_def nbr_def open_cell_def in_bounds_def split: if_splits)
  next
    case gc: (Some gc)
    show ?thesis
    proof (cases "g_score s (nbr c d)")
      case None
      with assms mz gc show ?thesis
        by (auto simp: relax_def Let_def nbr_def open_cell_def in_bounds_def manhattan_def
            heappush_def add.assoc split: if_splits)
    next
      case (Some gn)
      with assms mz gc show ?thesis
        by (auto simp: relax_def Let_def nbr_def open_cell_def in_bounds_def manhattan_def
            heappush_def add.assoc split: if_splits)
    qed
  qed
qed

lemma relax_maze: "relax w h goal c s d = Inr s' \<Longrightarrow> a_maze s' = a_maze s"
  by (drule relax_Inr) auto

lemma foldE_prefix:
  assumes "foldE f ds s = Inr s'" and "P [] s"
    and "\<And>pre a t t'. P pre t \<Longrightarrow> a \<in> set ds \<Longrightarrow> f t a = Inr t' \<Longrightarrow> P (pre @ [a]) t'"
  shows "P ds s'"
proof -
  have "foldE f xs s = Inr s' \<Longrightarrow> P pre s \<Longrightarrow> set xs \<subseteq> set ds \<Longrightarrow> P (pre @ xs) s'" for pre xs
  proof (induction xs arbitrary: s pre)
    case Nil then show ?case by simp
  next
    case (Cons a xs)
    from Cons.prems(1) obtain s1 where 1: "f s a = Inr s1" and 2: "foldE f xs s1 = Inr s'"
      by (auto split: sum.splits)
    from Cons.prems(3) have a: "a \<in> set ds" and xs: "set xs \<subseteq> set ds" by simp_all
    from assms(3)[OF Cons.prems(2) a 1] have "P (pre @ [a]) s1" .
    from Cons.IH[OF 2 this xs] show ?case by simp
  qed
  from this[OF assms(1), of "[]"] assms(2) show ?thesis by simp
qed

lemma heappop_min:
  assumes "hp \<noteq> []" "heappop hp = (e, hp')"
  shows "e \<in> set hp" "\<And>x. x \<in> set hp \<Longrightarrow> e \<le> x" "set hp' \<subseteq> set hp"
    "\<And>x. x \<in> set hp \<Longrightarrow> x \<noteq> e \<Longrightarrow> x \<in> set hp'"
proof -
  have m: "fold min xs x = Min (set (x # xs))" for xs and x :: 'a
    by (rule Min.set_eq_fold[symmetric])
  from assms have e: "e = Min (set hp)" and hp': "hp' = remove1 e hp"
    using m[of "tl hp" "hd hp"] by (cases hp; simp add: heappop_def Let_def)+
  from assms(1) show "e \<in> set hp" unfolding e by (intro Min_in) simp_all
  show "\<And>x. x \<in> set hp \<Longrightarrow> e \<le> x" unfolding e by (intro Min_le) simp_all
  show "set hp' \<subseteq> set hp" unfolding hp' by (rule set_remove1_subset)
  show "\<And>x. x \<in> set hp \<Longrightarrow> x \<noteq> e \<Longrightarrow> x \<in> set hp'" unfolding hp' by simp
qed

subsection \<open>The invariant of astar\<close>

definition gval :: "(cell \<rightharpoonup> nat) \<Rightarrow> cell \<Rightarrow> nat" where
  "gval g c = (case g c of None \<Rightarrow> 0 | Some k \<Rightarrow> k)"

definition relaxed :: "grid \<Rightarrow> int \<Rightarrow> int \<Rightarrow> (cell \<rightharpoonup> nat) \<Rightarrow> cell \<Rightarrow> bool" where
  "relaxed m w h g u \<longleftrightarrow> (\<forall>n. step m w h u n \<longrightarrow> (\<exists>gn. g n = Some gn \<and> gn \<le> Suc (gval g u)))"

definition pending :: "cell \<Rightarrow> (int \<times> cell) list \<Rightarrow> (cell \<rightharpoonup> nat) \<Rightarrow> cell \<Rightarrow> bool" where
  "pending goal hp g u \<longleftrightarrow> (\<exists>f. (f, u) \<in> set hp \<and> f \<le> int (gval g u) + manhattan u goal)"

definition links_ok ::
  "grid \<Rightarrow> int \<Rightarrow> int \<Rightarrow> cell \<Rightarrow> (cell \<rightharpoonup> nat) \<Rightarrow> (cell \<rightharpoonup> cell option) \<Rightarrow> bool" where
  "links_ok m w h start g ps \<longleftrightarrow>
     g start = Some 0 \<and> ps start = Some None \<and>
     (\<forall>n. (ps n = None) = (g n = None)) \<and>
     (\<forall>n. ps n = Some None \<longrightarrow> n = start) \<and>
     (\<forall>n c. ps n = Some (Some c) \<longrightarrow>
        step m w h c n \<and> g c \<noteq> None \<and> Suc (gval g c) \<le> gval g n)"

definition heap_ok :: "cell \<Rightarrow> cell \<Rightarrow> (cell \<rightharpoonup> nat) \<Rightarrow> (int \<times> cell) list \<Rightarrow> bool" where
  "heap_ok start goal g hp \<longleftrightarrow>
     (\<forall>e \<in> set hp. g (snd e) \<noteq> None \<and>
        (e = (0, start) \<or> int (gval g (snd e)) + manhattan (snd e) goal \<le> fst e))"

definition astar_base :: "grid \<Rightarrow> int \<Rightarrow> int \<Rightarrow> cell \<Rightarrow> cell \<Rightarrow> astar_state \<Rightarrow> bool" where
  "astar_base m w h start goal s \<longleftrightarrow>
     a_maze s = m \<and> links_ok m w h start (g_score s) (a_parents s) \<and>
     heap_ok start goal (g_score s) (open_set s)"

definition astar_inv :: "grid \<Rightarrow> int \<Rightarrow> int \<Rightarrow> cell \<Rightarrow> cell \<Rightarrow> astar_state \<Rightarrow> bool" where
  "astar_inv m w h start goal s \<longleftrightarrow>
     astar_base m w h start goal s \<and>
     (\<forall>u. g_score s u \<noteq> None \<longrightarrow>
        relaxed m w h (g_score s) u \<or> pending goal (open_set s) (g_score s) u)"

definition astar_mid ::
  "grid \<Rightarrow> int \<Rightarrow> int \<Rightarrow> cell \<Rightarrow> cell \<Rightarrow> cell \<Rightarrow> (int \<times> int) list \<Rightarrow> astar_state \<Rightarrow> bool" where
  "astar_mid m w h start goal cur D s \<longleftrightarrow>
     astar_base m w h start goal s \<and> g_score s cur \<noteq> None \<and>
     (\<forall>u. g_score s u \<noteq> None \<longrightarrow> u \<noteq> cur \<longrightarrow>
        relaxed m w h (g_score s) u \<or> pending goal (open_set s) (g_score s) u) \<and>
     (\<forall>d \<in> set D. open_cell m w h (nbr cur d) \<longrightarrow>
        (\<exists>gn. g_score s (nbr cur d) = Some gn \<and> gn \<le> Suc (gval (g_score s) cur)))"

lemma heap_ok_subset: "heap_ok start goal g hp \<Longrightarrow> set hp' \<subseteq> set hp \<Longrightarrow> heap_ok start goal g hp'"
  unfolding heap_ok_def by blast

lemma astar_inv_init:
  "astar_inv m w h start goal
     \<lparr>a_maze = m, open_set = [(0, start)], g_score = [start \<mapsto> 0], a_parents = [start \<mapsto> None]\<rparr>"
proof -
  have "0 \<le> manhattan start goal" by (simp add: manhattan_def)
  then show ?thesis
    by (simp add: astar_inv_def astar_base_def links_ok_def heap_ok_def pending_def gval_def)
qed

lemma astar_pop:
  assumes inv: "astar_inv m w h start goal s" and ne: "open_set s \<noteq> []"
    and pop: "heappop (open_set s) = (e, hp)"
  shows "astar_mid m w h start goal (snd e) [] (s\<lparr>open_set := hp\<rparr>)"
proof -
  note hm = heappop_min[OF ne pop]
  from inv have base: "astar_base m w h start goal s"
    and rp: "\<And>u. g_score s u \<noteq> None \<Longrightarrow>
        relaxed m w h (g_score s) u \<or> pending goal (open_set s) (g_score s) u"
    unfolding astar_inv_def by blast+
  from base have hk: "heap_ok start goal (g_score s) (open_set s)"
    unfolding astar_base_def by blast
  have b': "astar_base m w h start goal (s\<lparr>open_set := hp\<rparr>)"
    using base heap_ok_subset[OF hk hm(3)] unfolding astar_base_def by simp
  from hk hm(1) have ge: "g_score s (snd e) \<noteq> None" unfolding heap_ok_def by blast
  have "relaxed m w h (g_score s) u \<or> pending goal hp (g_score s) u"
    if u: "g_score s u \<noteq> None" "u \<noteq> snd e" for u
  proof -
    from rp[OF u(1)] show ?thesis
    proof
      assume "relaxed m w h (g_score s) u" then show ?thesis ..
    next
      assume "pending goal (open_set s) (g_score s) u"
      then obtain f where f: "(f, u) \<in> set (open_set s)" "f \<le> int (gval (g_score s) u) + manhattan u goal"
        unfolding pending_def by blast
      from u(2) have "(f, u) \<noteq> e" by auto
      from hm(4)[OF f(1) this] f(2) have "pending goal hp (g_score s) u"
        unfolding pending_def by blast
      then show ?thesis ..
    qed
  qed
  with b' ge show ?thesis unfolding astar_mid_def by simp
qed

lemma astar_mid_done:
  assumes "astar_mid m w h start goal cur dirs s"
  shows "astar_inv m w h start goal s"
proof -
  from assms have base: "astar_base m w h start goal s"
    and oth: "\<And>u. g_score s u \<noteq> None \<Longrightarrow> u \<noteq> cur \<Longrightarrow>
        relaxed m w h (g_score s) u \<or> pending goal (open_set s) (g_score s) u"
    and cur: "\<And>d. d \<in> set dirs \<Longrightarrow> open_cell m w h (nbr cur d) \<Longrightarrow>
        (\<exists>gn. g_score s (nbr cur d) = Some gn \<and> gn \<le> Suc (gval (g_score s) cur))"
    unfolding astar_mid_def by blast+
  have rc: "relaxed m w h (g_score s) cur"
    unfolding relaxed_def step_nbr using cur by blast
  have "relaxed m w h (g_score s) u \<or> pending goal (open_set s) (g_score s) u"
    if "g_score s u \<noteq> None" for u
    using oth[OF that] rc by (cases "u = cur") auto
  with base show ?thesis unfolding astar_inv_def by blast
qed

lemma links_ok_update:
  assumes ok: "links_ok m w h start g ps" and gc: "g cur = Some gc"
    and st: "step m w h cur n" and lt: "\<forall>gn. g n = Some gn \<longrightarrow> Suc gc < gn"
  shows "links_ok m w h start (g(n \<mapsto> Suc gc)) (ps(n \<mapsto> Some cur))"
proof -
  from ok have g0: "g start = Some 0" and p0: "ps start = Some None"
    and dm: "\<And>x. (ps x = None) = (g x = None)"
    and root: "\<And>x. ps x = Some None \<Longrightarrow> x = start"
    and link: "\<And>x c. ps x = Some (Some c) \<Longrightarrow>
        step m w h c x \<and> g c \<noteq> None \<and> Suc (gval g c) \<le> gval g x"
    unfolding links_ok_def by blast+
  have ns: "n \<noteq> start" using g0 lt by auto
  have nc: "n \<noteq> cur" using gc lt by auto
  let ?g = "g(n \<mapsto> Suc gc)"
  have le: "gval ?g x \<le> gval g x" if "g x \<noteq> None" for x
    using that lt by (auto simp: gval_def)
  have same: "gval ?g x = gval g x" if "x \<noteq> n" for x
    using that by (simp add: gval_def)
  show ?thesis
    unfolding links_ok_def
  proof (intro conjI allI impI)
    show "?g start = Some 0" using g0 ns by simp
    show "(ps(n \<mapsto> Some cur)) start = Some None" using p0 ns by simp
    show "((ps(n \<mapsto> Some cur)) x = None) = (?g x = None)" for x using dm[of x] by simp
    show "x = start" if "(ps(n \<mapsto> Some cur)) x = Some None" for x
      using that root[of x] by (simp split: if_splits)
  next
    fix x c assume a: "(ps(n \<mapsto> Some cur)) x = Some (Some c)"
    show "step m w h c x"
      using a st link[of x c] by (simp split: if_splits)
    show "?g c \<noteq> None"
      using a gc link[of x c] by (auto split: if_splits)
    show "Suc (gval ?g c) \<le> gval ?g x"
    proof (cases "x = n")
      case True
      with a have "c = cur" by simp
      with True nc gc show ?thesis by (simp add: gval_def)
    next
      case False
      with a have l: "ps x = Some (Some c)" by simp
      from link[OF l] have "g c \<noteq> None" "Suc (gval g c) \<le> gval g x" by simp_all
      with le[of c] same[OF False] show ?thesis by simp
    qed
  qed
qed

lemma heap_ok_update:
  assumes ok: "heap_ok start goal g hp" and lt: "\<forall>gn. g n = Some gn \<longrightarrow> Suc gc < gn"
  shows "heap_ok start goal (g(n \<mapsto> Suc gc)) ((int (Suc gc) + manhattan n goal, n) # hp)"
proof -
  let ?g = "g(n \<mapsto> Suc gc)"
  have le: "gval ?g x \<le> gval g x" if "g x \<noteq> None" for x
    using that lt by (auto simp: gval_def)
  show ?thesis
    unfolding heap_ok_def
  proof (intro ballI)
    fix e assume "e \<in> set ((int (Suc gc) + manhattan n goal, n) # hp)"
    then consider "e = (int (Suc gc) + manhattan n goal, n)" | "e \<in> set hp" by auto
    then show "?g (snd e) \<noteq> None \<and>
        (e = (0, start) \<or> int (gval ?g (snd e)) + manhattan (snd e) goal \<le> fst e)"
    proof cases
      case 1 then show ?thesis by (simp add: gval_def)
    next
      case 2
      with ok have g: "g (snd e) \<noteq> None"
        and f: "e = (0, start) \<or> int (gval g (snd e)) + manhattan (snd e) goal \<le> fst e"
        unfolding heap_ok_def by blast+
      from le[OF g] f have "e = (0, start) \<or> int (gval ?g (snd e)) + manhattan (snd e) goal \<le> fst e"
        by linarith
      with g show ?thesis by simp
    qed
  qed
qed

lemma astar_mid_step:
  assumes mid: "astar_mid m w h start goal cur D t" and rx: "relax w h goal cur t d = Inr t'"
    and d: "d \<in> set dirs"
  shows "astar_mid m w h start goal cur (D @ [d]) t'"
proof -
  let ?n = "nbr cur d"
  let ?g = "g_score t"
  from mid have base: "astar_base m w h start goal t" and gcur: "?g cur \<noteq> None"
    and oth: "\<And>u. ?g u \<noteq> None \<Longrightarrow> u \<noteq> cur \<Longrightarrow>
        relaxed m w h ?g u \<or> pending goal (open_set t) ?g u"
    and prev: "\<And>d. d \<in> set D \<Longrightarrow> open_cell m w h (nbr cur d) \<Longrightarrow>
        (\<exists>gn. ?g (nbr cur d) = Some gn \<and> gn \<le> Suc (gval ?g cur))"
    unfolding astar_mid_def by blast+
  from base have mz: "a_maze t = m" and lk: "links_ok m w h start ?g (a_parents t)"
    and hk: "heap_ok start goal ?g (open_set t)"
    unfolding astar_base_def by blast+
  from relax_Inr[OF rx] consider
    (closed) "\<not> open_cell m w h ?n" "t' = t"
    | (keep) gc gn where "?g cur = Some gc" "open_cell m w h ?n" "?g ?n = Some gn" "gn \<le> Suc gc" "t' = t"
    | (upd) gc where "?g cur = Some gc" "open_cell m w h ?n"
        "\<forall>gn. ?g ?n = Some gn \<longrightarrow> Suc gc < gn"
        "t' = t\<lparr>g_score := ?g(?n \<mapsto> Suc gc),
               open_set := (int (Suc gc) + manhattan ?n goal, ?n) # open_set t,
               a_parents := (a_parents t)(?n \<mapsto> Some cur)\<rparr>"
    unfolding mz by blast
  then show ?thesis
  proof cases
    case closed
    with mid show ?thesis unfolding astar_mid_def by auto
  next
    case keep
    then have "gn \<le> Suc (gval ?g cur)" by (simp add: gval_def)
    with mid keep show ?thesis unfolding astar_mid_def by auto
  next
    case upd
    let ?g' = "?g(?n \<mapsto> Suc gc)"
    let ?hp' = "(int (Suc gc) + manhattan ?n goal, ?n) # open_set t"
    have g': "g_score t' = ?g'" and hp': "open_set t' = ?hp'"
      and ps': "a_parents t' = (a_parents t)(?n \<mapsto> Some cur)" and mz': "a_maze t' = m"
      using upd(4) mz by simp_all
    have nc: "?n \<noteq> cur" using upd(1,3) by auto
    have stp: "step m w h cur ?n"
      unfolding step_nbr using upd(2) d by blast
    have le: "\<exists>k'. ?g' x = Some k' \<and> k' \<le> k" if "?g x = Some k" for x k
      using that upd(3) by (cases "x = ?n") auto
    have same: "gval ?g' x = gval ?g x" if "x \<noteq> ?n" for x
      using that by (simp add: gval_def)
    have b': "astar_base m w h start goal t'"
      unfolding astar_base_def g' hp' ps' mz'
      using links_ok_update[OF lk upd(1) stp upd(3)] heap_ok_update[OF hk upd(3)] by simp
    have gcur': "?g' cur \<noteq> None" using gcur by simp
    have gvc: "gval ?g' cur = gc" using nc upd(1) by (simp add: gval_def)
    have oth': "relaxed m w h ?g' u \<or> pending goal ?hp' ?g' u"
      if u: "?g' u \<noteq> None" "u \<noteq> cur" for u
    proof (cases "u = ?n")
      case True
      have "pending goal ?hp' ?g' ?n" unfolding pending_def
        by (intro exI[of _ "int (Suc gc) + manhattan ?n goal"]) (simp add: gval_def)
      with True show ?thesis by simp
    next
      case False
      with u have gu: "?g u \<noteq> None" by simp
      from oth[OF gu u(2)] show ?thesis
      proof
        assume r: "relaxed m w h ?g u"
        have "relaxed m w h ?g' u" unfolding relaxed_def
        proof (intro allI impI)
          fix x assume "step m w h u x"
          with r obtain k where k: "?g x = Some k" "k \<le> Suc (gval ?g u)"
            unfolding relaxed_def by blast
          from le[OF k(1)] obtain k' where "?g' x = Some k'" "k' \<le> k" by blast
          with k(2) same[OF False] show "\<exists>gn. ?g' x = Some gn \<and> gn \<le> Suc (gval ?g' u)"
            by (intro exI[of _ k']) simp
        qed
        then show ?thesis ..
      next
        assume "pending goal (open_set t) ?g u"
        then obtain f where "(f, u) \<in> set (open_set t)" "f \<le> int (gval ?g u) + manhattan u goal"
          unfolding pending_def by blast
        with same[OF False] have "pending goal ?hp' ?g' u"
          unfolding pending_def by (intro exI[of _ f]) simp
        then show ?thesis ..
      qed
    qed
    have prev': "\<exists>gn. ?g' (nbr cur e) = Some gn \<and> gn \<le> Suc (gval ?g' cur)"
      if e: "e \<in> set (D @ [d])" "open_cell m w h (nbr cur e)" for e
    proof (cases "nbr cur e = ?n")
      case True
      then show ?thesis using gvc by simp
    next
      case False
      then have "e \<noteq> d" by auto
      with e have "e \<in> set D" by simp
      from prev[OF this e(2)] obtain k where k: "?g (nbr cur e) = Some k" "k \<le> Suc (gval ?g cur)"
        by blast
      have "gval ?g cur = gc" using upd(1) by (simp add: gval_def)
      with k False gvc show ?thesis by simp
    qed
    show ?thesis
      unfolding astar_mid_def g' hp'
      using b' gcur' oth' prev' by blast
  qed
qed

lemma astar_expand:
  assumes inv: "astar_inv m w h start goal s" and ne: "open_set s \<noteq> []"
    and pop: "heappop (open_set s) = (e, hp)"
    and fold: "foldE (relax w h goal (snd e)) dirs (s\<lparr>open_set := hp\<rparr>) = Inr s'"
  shows "astar_inv m w h start goal s'"
proof -
  have "astar_mid m w h start goal (snd e) dirs s'"
  proof (rule foldE_prefix[OF fold, where P = "astar_mid m w h start goal (snd e)"])
    show "astar_mid m w h start goal (snd e) [] (s\<lparr>open_set := hp\<rparr>)"
      by (rule astar_pop[OF inv ne pop])
  next
    fix pre a t t'
    assume "astar_mid m w h start goal (snd e) pre t" "a \<in> set dirs"
      "relax w h goal (snd e) t a = Inr t'"
    then show "astar_mid m w h start goal (snd e) (pre @ [a]) t'"
      using astar_mid_step[of m w h start goal "snd e" pre t a t'] by blast
  qed
  then show ?thesis by (rule astar_mid_done)
qed

lemma relax_no_error:
  assumes "dense (a_maze t) w h" "g_score t cur \<noteq> None"
  shows "\<exists>t'. relax w h goal cur t d = Inr t' \<and> a_maze t' = a_maze t \<and> g_score t' cur \<noteq> None"
proof -
  from assms(2) obtain gc where gc: "g_score t cur = Some gc" by blast
  have "\<exists>t'. relax w h goal cur t d = Inr t'"
  proof (cases "in_bounds w h (nbr cur d)")
    case True
    from dense_in_bounds[OF assms(1) True] gc True show ?thesis
      by (cases "g_score t (nbr cur d)") (auto simp: relax_def Let_def nbr_def in_bounds_def)
  next
    case False
    then show ?thesis by (auto simp: relax_def Let_def nbr_def in_bounds_def)
  qed
  then obtain t' where t': "relax w h goal cur t d = Inr t'" by blast
  from relax_Inr[OF t'] assms(2) have "g_score t' cur \<noteq> None" by auto
  with t' relax_maze[OF t'] show ?thesis by blast
qed

lemma foldE_relax_no_error:
  assumes "dense (a_maze t) w h" "g_score t cur \<noteq> None"
  shows "\<exists>t'. foldE (relax w h goal cur) ds t = Inr t' \<and> a_maze t' = a_maze t"
  using assms
proof (induction ds arbitrary: t)
  case Nil show ?case by simp
next
  case (Cons d ds)
  from relax_no_error[OF Cons.prems, of goal d] obtain t1 where
    1: "relax w h goal cur t d = Inr t1" "a_maze t1 = a_maze t" "g_score t1 cur \<noteq> None" by blast
  from Cons.prems(1) 1(2) have "dense (a_maze t1) w h" by simp
  from Cons.IH[OF this 1(3)] 1 show ?case by simp
qed

lemma astar_loop_unfold:
  assumes "open_set s \<noteq> []" "heappop (open_set s) = (e, hp)"
  shows "astar_loop w h goal s =
     (if snd e = goal then Inr (s\<lparr>open_set := hp\<rparr>)
      else (case foldE (relax w h goal (snd e)) dirs (s\<lparr>open_set := hp\<rparr>) of
              Inl x \<Rightarrow> Inl x
            | Inr s' \<Rightarrow> astar_loop w h goal s'))"
  using assms by (simp add: astar_loop.simps[of w h goal s] Let_def)

lemma astar_loop_no_error:
  assumes "astar_inv m w h start goal s" "dense m w h"
  shows "\<exists>s'. astar_loop w h goal s = Inr s'"
  using assms
proof (induction w h goal s rule: astar_loop.induct)
  case (1 w h goal s)
  show ?case
  proof (cases "open_set s = []")
    case True
    then show ?thesis by (simp add: astar_loop.simps[of w h goal s])
  next
    case ne: False
    obtain e hp where pop: "heappop (open_set s) = (e, hp)" by (cases "heappop (open_set s)")
    note unf = astar_loop_unfold[OF ne pop, of w h goal]
    show ?thesis
    proof (cases "snd e = goal")
      case True
      then show ?thesis by (simp add: unf)
    next
      case False
      let ?s1 = "s\<lparr>open_set := hp\<rparr>"
      from astar_pop[OF "1.prems"(1) ne pop] have mid: "astar_mid m w h start goal (snd e) [] ?s1" .
      then have "a_maze ?s1 = m" "g_score ?s1 (snd e) \<noteq> None"
        unfolding astar_mid_def astar_base_def by blast+
      with "1.prems"(2) have "dense (a_maze ?s1) w h" by simp
      from foldE_relax_no_error[OF this \<open>g_score ?s1 (snd e) \<noteq> None\<close>, of goal dirs]
      obtain s2 where f: "foldE (relax w h goal (snd e)) dirs ?s1 = Inr s2" by blast
      from astar_expand[OF "1.prems"(1) ne pop f] have inv2: "astar_inv m w h start goal s2" .
      from "1.IH"[OF ne pop[symmetric] refl refl refl False f inv2 "1.prems"(2)]
      obtain s' where "astar_loop w h goal s2 = Inr s'" by blast
      with False f show ?thesis by (simp add: unf)
    qed
  qed
qed

lemma astar_loop_exit:
  assumes "astar_inv m w h start goal s" "astar_loop w h goal s = Inr s'"
  shows "\<exists>s0. astar_inv m w h start goal s0 \<and> a_parents s' = a_parents s0 \<and>
           g_score s' = g_score s0 \<and> a_maze s' = m \<and>
           (open_set s0 = [] \<or> snd (fst (heappop (open_set s0))) = goal)"
  using assms
proof (induction w h goal s rule: astar_loop.induct)
  case (1 w h goal s)
  from "1.prems"(1) have m: "a_maze s = m" by (simp add: astar_inv_def astar_base_def)
  show ?case
  proof (cases "open_set s = []")
    case True
    with "1.prems"(2) have "s' = s" by (simp add: astar_loop.simps[of w h goal s])
    with "1.prems"(1) True m
    have "astar_inv m w h start goal s \<and> a_parents s' = a_parents s \<and>
           g_score s' = g_score s \<and> a_maze s' = m \<and>
           (open_set s = [] \<or> snd (fst (heappop (open_set s))) = goal)" by simp
    then show ?thesis by blast
  next
    case ne: False
    obtain e hp where pop: "heappop (open_set s) = (e, hp)" by (cases "heappop (open_set s)")
    note unf = astar_loop_unfold[OF ne pop, of w h goal]
    show ?thesis
    proof (cases "snd e = goal")
      case True
      with "1.prems"(2) have "s' = s\<lparr>open_set := hp\<rparr>" by (simp add: unf)
      with "1.prems"(1) True m pop
      have "astar_inv m w h start goal s \<and> a_parents s' = a_parents s \<and>
           g_score s' = g_score s \<and> a_maze s' = m \<and>
           (open_set s = [] \<or> snd (fst (heappop (open_set s))) = goal)" by simp
      then show ?thesis by blast
    next
      case False
      let ?s1 = "s\<lparr>open_set := hp\<rparr>"
      from False "1.prems"(2)
      have "(case foldE (relax w h goal (snd e)) dirs ?s1 of Inl x \<Rightarrow> Inl x
            | Inr s2 \<Rightarrow> astar_loop w h goal s2) = Inr s'" by (simp add: unf)
      then obtain s2 where f: "foldE (relax w h goal (snd e)) dirs ?s1 = Inr s2"
        and l: "astar_loop w h goal s2 = Inr s'"
        by (cases "foldE (relax w h goal (snd e)) dirs ?s1") auto
      from astar_expand[OF "1.prems"(1) ne pop f] have inv2: "astar_inv m w h start goal s2" .
      from "1.IH"[OF ne pop[symmetric] refl refl refl False f inv2 l] show ?thesis .
    qed
  qed
qed

subsection \<open>What a finished astar search gives\<close>

lemma manhattan_self: "manhattan a a = 0"
  by (simp add: manhattan_def)

lemma manhattan_adjacent: "adjacent a b \<Longrightarrow> manhattan a c \<le> manhattan b c + 1"
  unfolding adjacent_def manhattan_def by linarith

lemma manhattan_path:
  assumes "successively (step m w h) p" "p \<noteq> []"
  shows "manhattan (hd p) (last p) + 1 \<le> int (length p)"
  using assms
proof (induction p rule: induct_list012)
  case 1 then show ?case by simp
next
  case (2 u) show ?case by (simp add: manhattan_self)
next
  case (3 u v r)
  then have "adjacent u v" "manhattan v (last (v # r)) + 1 \<le> int (length (v # r))"
    by (simp_all add: step_def)
  with manhattan_adjacent[of u v "last (v # r)"] show ?case by simp
qed

lemma astar_shortest:
  assumes inv: "astar_inv m w h start goal s"
    and ex: "open_set s = [] \<or> snd (fst (heappop (open_set s))) = goal"
    and p: "successively (step m w h) p" "p \<noteq> []" "last p = goal" "g_score s (hd p) \<noteq> None"
  shows "g_score s goal \<noteq> None \<and>
         Suc (gval (g_score s) goal) \<le> gval (g_score s) (hd p) + length p"
  using p
proof (induction p rule: induct_list012)
  case 1 then show ?case by simp
next
  case (2 u) then show ?case by simp
next
  case (3 u v r)
  let ?g = "g_score s"
  from inv have base: "astar_base m w h start goal s"
    and rp: "\<And>u. ?g u \<noteq> None \<Longrightarrow> relaxed m w h ?g u \<or> pending goal (open_set s) ?g u"
    unfolding astar_inv_def by blast+
  from base have hk: "heap_ok start goal ?g (open_set s)" and g0: "?g start = Some 0"
    unfolding astar_base_def links_ok_def by blast+
  from "3.prems" have uv: "step m w h u v" and rest: "successively (step m w h) (v # r)"
    and gu: "?g u \<noteq> None" and lst: "last (v # r) = goal" by simp_all
  from rp[OF gu] show ?case
  proof
    assume "relaxed m w h ?g u"
    with uv obtain gv where gv: "?g v = Some gv" "gv \<le> Suc (gval ?g u)"
      unfolding relaxed_def by blast
    then have "?g (hd (v # r)) \<noteq> None" by simp
    from "3.IH"(2)[OF rest _ lst this]
    have "?g goal \<noteq> None \<and> Suc (gval ?g goal) \<le> gval ?g v + length (v # r)" by simp
    moreover have "gval ?g v = gv" using gv(1) by (simp add: gval_def)
    ultimately show ?thesis using gv(2) by simp
  next
    assume "pending goal (open_set s) ?g u"
    then obtain f where f: "(f, u) \<in> set (open_set s)" "f \<le> int (gval ?g u) + manhattan u goal"
      unfolding pending_def by blast
    then have ne: "open_set s \<noteq> []" by auto
    obtain e hp where pop: "heappop (open_set s) = (e, hp)" by (cases "heappop (open_set s)")
    with ex ne have eg: "snd e = goal" by simp
    note hm = heappop_min[OF ne pop]
    from hm(2)[OF f(1)] have ef: "fst e \<le> f" by (cases e) (auto simp: less_eq_prod_def)
    from hk hm(1) eg have gg: "?g goal \<noteq> None"
      and alt: "e = (0, start) \<or> int (gval ?g goal) + manhattan goal goal \<le> fst e"
      unfolding heap_ok_def by blast+
    from manhattan_path[OF "3.prems"(1,2)] "3.prems"(3)
    have mh: "manhattan u goal + 1 \<le> int (length (u # v # r))" by simp
    from alt have "int (gval ?g goal) \<le> int (gval ?g u) + manhattan u goal"
    proof
      assume "e = (0, start)"
      with eg g0 have "gval ?g goal = 0" by (simp add: gval_def)
      moreover have "0 \<le> manhattan u goal" by (simp add: manhattan_def)
      ultimately show ?thesis by simp
    next
      assume "int (gval ?g goal) + manhattan goal goal \<le> fst e"
      with ef f(2) show ?thesis by (simp add: manhattan_self)
    qed
    with mh gg show ?thesis by simp
  qed
qed

lemma astar_chain_ex:
  assumes "links_ok m w h start g ps"
  shows "\<exists>p. chain ps goal p"
proof -
  from assms have link: "\<And>n c. ps n = Some (Some c) \<Longrightarrow>
        step m w h c n \<and> g c \<noteq> None \<and> Suc (gval g c) \<le> gval g n"
    unfolding links_ok_def by blast
  have lt: "gval g c < gval g n" if "ps n = Some (Some c)" for n c
    using link[OF that] by simp
  from chain_exists[of ps "gval g" goal, OF lt] show ?thesis .
qed

lemma astar_chain:
  assumes "links_ok m w h start g ps" and p: "chain ps goal p"
  shows "reconstruct ps goal = Some (rev p)"
    and "ps goal = None \<Longrightarrow> p = [goal]"
    and "ps goal \<noteq> None \<Longrightarrow> hd (rev p) = start"
    and "ps goal \<noteq> None \<Longrightarrow> successively (step m w h) (rev p)"
    and "ps goal \<noteq> None \<Longrightarrow> length p \<le> Suc (gval g goal)"
proof -
  from assms have root: "\<And>n. ps n = Some None \<Longrightarrow> n = start"
    and dm: "\<And>x. (ps x = None) = (g x = None)"
    and link: "\<And>n c. ps n = Some (Some c) \<Longrightarrow>
        step m w h c n \<and> g c \<noteq> None \<and> Suc (gval g c) \<le> gval g n"
    unfolding links_ok_def by blast+
  show "reconstruct ps goal = Some (rev p)" by (rule reconstruct_chain[OF p])
  show "ps goal = None \<Longrightarrow> p = [goal]" using chain_unreached[OF _ p] by blast
  {
    assume g: "ps goal \<noteq> None"
    have "ps (last p) = Some None"
    proof (rule chain_last[OF p g])
      fix a b assume "ps a = Some (Some b)"
      from link[OF this] dm[of b] show "ps b \<noteq> None" by simp
    qed
    from root[OF this] chain_hd[OF p] show "hd (rev p) = start" by (simp add: hd_rev)
    have "successively (\<lambda>a b. step m w h b a) p"
    proof (rule chain_links[OF p])
      fix a b assume "ps a = Some (Some b)"
      from link[OF this] show "step m w h b a" by simp
    qed
    then show "successively (step m w h) (rev p)" by (simp add: successively_rev)
    show "length p \<le> Suc (gval g goal)"
    proof (rule chain_length[OF p])
      fix a b assume "ps a = Some (Some b)"
      from link[OF this] show "Suc (gval g b) \<le> gval g a" by simp
    qed
  }
qed

lemma astar_sound:
  assumes "links_ok m w h start g ps" "ps n \<noteq> None"
  shows "reachable m w h start n"
  using assms(2)
proof (induction "gval g n" arbitrary: n rule: less_induct)
  case less
  from assms(1) have root: "\<And>n. ps n = Some None \<Longrightarrow> n = start"
    and dm: "\<And>x. (ps x = None) = (g x = None)"
    and link: "\<And>n c. ps n = Some (Some c) \<Longrightarrow>
        step m w h c n \<and> g c \<noteq> None \<and> Suc (gval g c) \<le> gval g n"
    unfolding links_ok_def by blast+
  from less.prems obtain v where v: "ps n = Some v" by blast
  show ?case
  proof (cases v)
    case None
    with v root have "n = start" by simp
    then show ?thesis by (simp add: reachable_def)
  next
    case (Some c)
    with v link[of n c] dm[of c] have l: "step m w h c n" "ps c \<noteq> None" "gval g c < gval g n"
      by simp_all
    from less.hyps[OF l(3) l(2)] l(1) show ?thesis
      unfolding reachable_def by (rule rtranclp.rtrancl_into_rtrancl)
  qed
qed

section \<open>The three solvers on a dense grid\<close>

definition route :: "grid \<Rightarrow> int \<Rightarrow> int \<Rightarrow> cell \<Rightarrow> cell \<Rightarrow> cell list \<Rightarrow> bool" where
  "route m w h start goal p \<longleftrightarrow>
     p \<noteq> [] \<and> hd p = start \<and> last p = goal \<and> successively (step m w h) p"

lemma bfs_facts:
  assumes "dense m w h"
  shows "\<exists>p s'. bfs_search m start goal w h = Inr s' \<and> maze s' = m \<and>
           bfs m start goal w h = Some (Inr p) \<and> p \<noteq> [] \<and> last p = goal \<and>
           (\<not> reachable m w h start goal \<longrightarrow> p = [goal]) \<and>
           (reachable m w h start goal \<longrightarrow> route m w h start goal p \<and>
              (\<forall>q. route m w h start goal q \<longrightarrow> length p \<le> length q))"
proof -
  let ?s = "\<lparr>maze = m, frontier = [start], parents = [start \<mapsto> None]\<rparr>"
  have "dense (maze ?s) w h" using assms by simp
  from bfs_loop_no_error[OF this, of goal] obtain s' where s': "bfs_loop w h goal ?s = Inr s'"
    by blast
  from bfs_loop_exit[OF search_inv_init bfs_order_init s'] obtain d s0 where
    inv: "search_inv m w h start d s0" and ord: "bfs_order m w h d s0"
    and eq: "parents s' = parents s0" "maze s' = m"
    and ex: "frontier s0 = [] \<or> hd (frontier s0) = goal" by blast
  from search_inv_chain_ex[OF inv, of goal] obtain c where c: "chain (parents s0) goal c" ..
  note cp = search_inv_chain[OF inv c]
  have lst: "last (rev c) = goal" using chain_hd[OF c] by (simp add: last_rev)
  have ne: "rev c \<noteq> []" using chain_hd[OF c] by simp
  from inv have pst: "parents s0 start \<noteq> None" and d0: "d start = 0"
    unfolding search_inv_def by simp_all
  have ex': "frontier s0 = [] \<or> goal \<in> set (frontier s0)"
    using ex by (cases "frontier s0") auto
  show ?thesis
  proof (intro exI[of _ "rev c"] exI[of _ s'] conjI impI allI)
    show "bfs_search m start goal w h = Inr s'" by (simp add: bfs_search_def s')
    show "maze s' = m" by (rule eq(2))
    show "bfs m start goal w h = Some (Inr (rev c))"
      by (simp add: bfs_def bfs_search_def s' eq(1) cp(1))
    show "rev c \<noteq> []" by (rule ne)
    show "last (rev c) = goal" by (rule lst)
  next
    assume "\<not> reachable m w h start goal"
    with search_inv_sound[OF inv, of goal] have "parents s0 goal = None" by blast
    from cp(2)[OF this] show "rev c = [goal]" by simp
  next
    assume r: "reachable m w h start goal"
    note g = search_inv_complete[OF inv ex' r]
    from cp(3)[OF g] cp(4)[OF g] ne lst
    show "route m w h start goal (rev c)" by (simp add: route_def)
  next
    fix q assume r: "reachable m w h start goal" and q: "route m w h start goal q"
    from cp(5)[OF search_inv_complete[OF inv ex' r]] have len: "length c = Suc (d goal)" .
    from q have q': "successively (step m w h) q" "q \<noteq> []" "last q = goal" "parents s0 (hd q) \<noteq> None"
      using pst by (simp_all add: route_def)
    from bfs_shortest[OF inv ord ex q'] q d0 have "Suc (d goal) \<le> length q"
      by (simp add: route_def)
    with len show "length (rev c) \<le> length q" by simp
  qed
qed

lemma dfs_facts:
  assumes "dense m w h"
  shows "\<exists>p s'. dfs_search m start goal w h = Inr s' \<and> maze s' = m \<and>
           dfs m start goal w h = Some (Inr p) \<and> p \<noteq> [] \<and> last p = goal \<and>
           (\<not> reachable m w h start goal \<longrightarrow> p = [goal]) \<and>
           (reachable m w h start goal \<longrightarrow> route m w h start goal p)"
proof -
  let ?s = "\<lparr>maze = m, frontier = [start], parents = [start \<mapsto> None]\<rparr>"
  have "dense (maze ?s) w h" using assms by simp
  from dfs_loop_no_error[OF this, of goal] obtain s' where s': "dfs_loop w h goal ?s = Inr s'"
    by blast
  from dfs_loop_exit[OF search_inv_init s'] obtain d s0 where
    inv: "search_inv m w h start d s0"
    and eq: "parents s' = parents s0" "maze s' = m"
    and ex: "frontier s0 = [] \<or> last (frontier s0) = goal" by blast
  from search_inv_chain_ex[OF inv, of goal] obtain c where c: "chain (parents s0) goal c" ..
  note cp = search_inv_chain[OF inv c]
  have lst: "last (rev c) = goal" using chain_hd[OF c] by (simp add: last_rev)
  have ne: "rev c \<noteq> []" using chain_hd[OF c] by simp
  have ex': "frontier s0 = [] \<or> goal \<in> set (frontier s0)"
    using ex by (cases "frontier s0" rule: rev_cases) auto
  show ?thesis
  proof (intro exI[of _ "rev c"] exI[of _ s'] conjI impI)
    show "dfs_search m start goal w h = Inr s'" by (simp add: dfs_search_def s')
    show "maze s' = m" by (rule eq(2))
    show "dfs m start goal w h = Some (Inr (rev c))"
      by (simp add: dfs_def dfs_search_def s' eq(1) cp(1))
    show "rev c \<noteq> []" by (rule ne)
    show "last (rev c) = goal" by (rule lst)
  next
    assume "\<not> reachable m w h start goal"
    with search_inv_sound[OF inv, of goal] have "parents s0 goal = None" by blast
    from cp(2)[OF this] show "rev c = [goal]" by simp
  next
    assume r: "reachable m w h start goal"
    note g = search_inv_complete[OF inv ex' r]
    from cp(3)[OF g] cp(4)[OF g] ne lst
    show "route m w h start goal (rev c)" by (simp add: route_def)
  qed
qed

lemma astar_facts:
  assumes "dense m w h"
  shows "\<exists>p s'. astar_search m start goal w h = Inr s' \<and> a_maze s' = m \<and>
           astar m start goal w h = Some (Inr p) \<and> p \<noteq> [] \<and> last p = goal \<and>
           (\<not> reachable m w h start goal \<longrightarrow> p = [goal]) \<and>
           (reachable m w h start goal \<longrightarrow> route m w h start goal p \<and>
              (\<forall>q. route m w h start goal q \<longrightarrow> length p \<le> length q))"
proof -
  let ?s = "\<lparr>a_maze = m, open_set = [(0, start)], g_score = [start \<mapsto> 0],
             a_parents = [start \<mapsto> None]\<rparr>"
  note init = astar_inv_init[of m w h start goal]
  from astar_loop_no_error[OF init assms] obtain s' where s': "astar_loop w h goal ?s = Inr s'"
    by blast
  from astar_loop_exit[OF init s'] obtain s0 where
    inv: "astar_inv m w h start goal s0"
    and eq: "a_parents s' = a_parents s0" "g_score s' = g_score s0" "a_maze s' = m"
    and ex: "open_set s0 = [] \<or> snd (fst (heappop (open_set s0))) = goal" by blast
  from inv have lk: "links_ok m w h start (g_score s0) (a_parents s0)"
    unfolding astar_inv_def astar_base_def by blast
  then have g0: "g_score s0 start = Some 0"
    and dm: "\<And>x. (a_parents s0 x = None) = (g_score s0 x = None)"
    unfolding links_ok_def by blast+
  from astar_chain_ex[OF lk, of goal] obtain c where c: "chain (a_parents s0) goal c" ..
  note cp = astar_chain[OF lk c]
  have lst: "last (rev c) = goal" using chain_hd[OF c] by (simp add: last_rev)
  have ne: "rev c \<noteq> []" using chain_hd[OF c] by simp
  have found: "g_score s0 goal \<noteq> None \<and> Suc (gval (g_score s0) goal) \<le> length q"
    if q: "route m w h start goal q" for q
  proof -
    from q g0 have q': "successively (step m w h) q" "q \<noteq> []" "last q = goal"
      "g_score s0 (hd q) \<noteq> None" by (simp_all add: route_def)
    from astar_shortest[OF inv ex q'] q g0 show ?thesis by (simp add: route_def gval_def)
  qed
  have reach: "\<exists>q. route m w h start goal q" if "reachable m w h start goal"
    using that unfolding reachable_def
  proof (induction rule: rtranclp_induct)
    case base
    show ?case by (intro exI[of _ "[start]"]) (simp add: route_def)
  next
    case (step y z)
    then obtain q where q: "route m w h start y q" by blast
    then have "route m w h start z (q @ [z])"
      using step.hyps(2) by (auto simp: route_def successively_append_iff)
    then show ?case by blast
  qed
  show ?thesis
  proof (intro exI[of _ "rev c"] exI[of _ s'] conjI impI allI)
    show "astar_search m start goal w h = Inr s'" by (simp add: astar_search_def s')
    show "a_maze s' = m" by (rule eq(3))
    show "astar m start goal w h = Some (Inr (rev c))"
      by (simp add: astar_def astar_search_def s' eq(1) cp(1))
    show "rev c \<noteq> []" by (rule ne)
    show "last (rev c) = goal" by (rule lst)
  next
    assume "\<not> reachable m w h start goal"
    with astar_sound[OF lk, of goal] have "a_parents s0 goal = None" by blast
    from cp(2)[OF this] show "rev c = [goal]" by simp
  next
    assume r: "reachable m w h start goal"
    from reach[OF r] obtain q where "route m w h start goal q" by blast
    from found[OF this] dm[of goal] have g: "a_parents s0 goal \<noteq> None" by simp
    from cp(3)[OF g] cp(4)[OF g] ne lst
    show "route m w h start goal (rev c)" by (simp add: route_def)
  next
    fix q assume r: "reachable m w h start goal" and q: "route m w h start goal q"
    from found[OF q] dm[of goal] have g: "a_parents s0 goal \<noteq> None"
      and le: "Suc (gval (g_score s0) goal) \<le> length q" by simp_all
    from cp(5)[OF g] le show "length (rev c) \<le> length q" by simp
  qed
qed

section \<open>Example grids\<close>

definition blocked :: grid where
  "blocked = [(0, 0) \<mapsto> EMPTY, (1, 0) \<mapsto> WALL, (2, 0) \<mapsto> EMPTY]"

definition corridor :: grid where
  "corridor = [(0, 0) \<mapsto> EMPTY, (1, 0) \<mapsto> EMPTY, (2, 0) \<mapsto> EMPTY]"

definition wall_left :: grid where
  "wall_left = [(0, 0) \<mapsto> WALL, (1, 0) \<mapsto> EMPTY]"

lemmas solver_eval =
  bfs_def bfs_search_def bfs_loop.simps dfs_def dfs_search_def dfs_loop.simps
  astar_def astar_search_def astar_loop.simps relax_def heappop_def heappush_def
  discover_def dirs_def reconstruct_def walk.simps dict_get_def Let_def

lemma dense_blocked: "dense blocked 3 1"
  by (simp add: dense_def cells_def blocked_def upto.simps)

lemma dense_corridor: "dense corridor 3 1"
  by (simp add: dense_def cells_def corridor_def upto.simps)

lemma dense_wall_left: "dense wall_left 2 1"
  by (simp add: dense_def cells_def wall_left_def upto.simps)

lemma bfs_blocked: "bfs blocked (0, 0) (2, 0) 3 1 = Some (Inr [(2, 0)])"
  by (simp add: solver_eval blocked_def EMPTY_def WALL_def)

lemma dfs_blocked: "dfs blocked (0, 0) (2, 0) 3 1 = Some (Inr [(2, 0)])"
  by (simp add: solver_eval blocked_def EMPTY_def WALL_def)

lemma astar_blocked: "astar blocked (0, 0) (2, 0) 3 1 = Some (Inr [(2, 0)])"
  by (simp add: solver_eval blocked_def EMPTY_def WALL_def)


lemma dfs_corridor: "dfs corridor (0, 0) (2, 0) 3 1 = Some (Inr [(0, 0), (1, 0), (2, 0)])"
  by (simp add: solver_eval corridor_def EMPTY_def WALL_def)

lemma astar_corridor: "astar corridor (0, 0) (2, 0) 3 1 = Some (Inr [(0, 0), (1, 0), (2, 0)])"
  by (simp add: solver_eval corridor_def EMPTY_def WALL_def)

lemma not_reachable_blocked: "\<not> reachable blocked 3 1 (0, 0) (2, 0)"
proof
  assume r: "reachable blocked 3 1 (0, 0) (2, 0)"
  from bfs_facts[OF dense_blocked, of "(0, 0)" "(2, 0)"] r bfs_blocked
  have "route blocked 3 1 (0, 0) (2, 0) [(2, 0)]" by auto
  then show False by (simp add: route_def)
qed


lemma bfs_wall_left_back: "bfs wall_left (1, 0) (0, 0) 2 1 = Some (Inr [(0, 0)])"
  by (simp add: solver_eval wall_left_def EMPTY_def WALL_def)



lemma not_reachable_wall_left: "\<not> reachable wall_left 2 1 (1, 0) (0, 0)"
proof
  assume r: "reachable wall_left 2 1 (1, 0) (0, 0)"
  from bfs_facts[OF dense_wall_left, of "(1, 0)" "(0, 0)"] r bfs_wall_left_back
  have "route wall_left 2 1 (1, 0) (0, 0) [(0, 0)]" by auto
  then show False by (simp add: route_def)
qed

section \<open>The claims about the solvers\<close>

lemma route_shape:
  assumes "route m w h start goal p"
  shows "successively adjacent p \<and> list_all (open_cell m w h) (tl p)"
proof -
  have "successively (step m w h) q \<longrightarrow>
      successively adjacent q \<and> list_all (open_cell m w h) (tl q)" for q
    by (induction q rule: induct_list012) (simp_all add: step_def)
  with assms show ?thesis by (simp add: route_def)
qed

lemma valid_path_route:
  "valid_path m w h start goal p \<longleftrightarrow> route m w h start goal p \<and> open_cell m w h start"
proof
  assume v: "valid_path m w h start goal p"
  from valid_path_steps[OF v] have r: "route m w h start goal p" by (simp add: route_def)
  from v have "p \<noteq> []" "hd p = start" "list_all (open_cell m w h) p"
    by (simp_all add: valid_path_def)
  then have "open_cell m w h start" by (cases p) auto
  with r show "route m w h start goal p \<and> open_cell m w h start" ..
next
  assume a: "route m w h start goal p \<and> open_cell m w h start"
  with route_shape[of m w h start goal p]
  have "successively adjacent p" "list_all (open_cell m w h) (tl p)" by simp_all
  moreover from a have "p \<noteq> []" "hd p = start" "last p = goal" by (simp_all add: route_def)
  ultimately show "valid_path m w h start goal p"
    using a by (cases p) (auto simp: valid_path_def)
qed

lemma route_reachable: "route m w h start goal p \<Longrightarrow> reachable m w h start goal"
  using steps_reachable[of m w h p] by (auto simp: route_def)

text \<open>
  C1 (as amended). On a dense grid whose goal cannot be reached from start by steps into
  in-bounds cells that are not WALL, each of bfs, dfs and astar returns the one-cell path
  \<open>[goal]\<close>: the reconstruction loop appends goal before it looks up its predecessor.
\<close>

theorem unreachable_goal_path:
  assumes "dense m w h" and "\<not> reachable m w h start goal"
  shows "bfs m start goal w h = Some (Inr [goal]) \<and>
         dfs m start goal w h = Some (Inr [goal]) \<and>
         astar m start goal w h = Some (Inr [goal])"
proof -
  from bfs_facts[OF assms(1), of start goal] assms(2)
  have "bfs m start goal w h = Some (Inr [goal])" by auto
  moreover from dfs_facts[OF assms(1), of start goal] assms(2)
  have "dfs m start goal w h = Some (Inr [goal])" by auto
  moreover from astar_facts[OF assms(1), of start goal] assms(2)
  have "astar m start goal w h = Some (Inr [goal])" by auto
  ultimately show ?thesis by simp
qed

theorem unreachable_goal_path_witness:
  "dense wall_left 2 1 \<and> \<not> reachable wall_left 2 1 (1, 0) (0, 0) \<and>
   bfs wall_left (1, 0) (0, 0) 2 1 = Some (Inr [(0, 0)]) \<and>
   dfs wall_left (1, 0) (0, 0) 2 1 = Some (Inr [(0, 0)]) \<and>
   astar wall_left (1, 0) (0, 0) 2 1 = Some (Inr [(0, 0)])"
  using unreachable_goal_path[OF dense_wall_left not_reachable_wall_left]
    dense_wall_left not_reachable_wall_left by simp

theorem unreachable_goal_not_empty:
  "dense blocked 3 1 \<and> \<not> reachable blocked 3 1 (0, 0) (2, 0) \<and>
   bfs blocked (0, 0) (2, 0) 3 1 = Some (Inr [(2, 0)]) \<and>
   dfs blocked (0, 0) (2, 0) 3 1 = Some (Inr [(2, 0)]) \<and>
   astar blocked (0, 0) (2, 0) 3 1 = Some (Inr [(2, 0)])"
  using dense_blocked not_reachable_blocked bfs_blocked dfs_blocked astar_blocked by simp




text \<open>
  C3. On a dense grid with a valid path from start to goal (consecutive cells 4-adjacent,
  every cell in bounds and not WALL), bfs returns a valid path that no valid path is
  shorter than, astar returns a path of the same length, and the path of dfs is at least
  as long.
\<close>

theorem shortest_path_lengths:
  assumes "dense m w h" and "valid_path m w h start goal q0"
  shows "\<exists>pb pa pd.
           bfs m start goal w h = Some (Inr pb) \<and>
           astar m start goal w h = Some (Inr pa) \<and>
           dfs m start goal w h = Some (Inr pd) \<and>
           valid_path m w h start goal pb \<and>
           (\<forall>q. valid_path m w h start goal q \<longrightarrow> length pb \<le> length q) \<and>
           length pa = length pb \<and> length pb \<le> length pd"
proof -
  from assms(2) have q0: "route m w h start goal q0" and os: "open_cell m w h start"
    by (simp_all add: valid_path_route)
  note r = route_reachable[OF q0]
  from bfs_facts[OF assms(1), of start goal] r obtain pb where
    pb: "bfs m start goal w h = Some (Inr pb)" "route m w h start goal pb"
    "\<And>q. route m w h start goal q \<Longrightarrow> length pb \<le> length q" by blast
  from astar_facts[OF assms(1), of start goal] r obtain pa where
    pa: "astar m start goal w h = Some (Inr pa)" "route m w h start goal pa"
    "\<And>q. route m w h start goal q \<Longrightarrow> length pa \<le> length q" by blast
  from dfs_facts[OF assms(1), of start goal] r obtain pd where
    pd: "dfs m start goal w h = Some (Inr pd)" "route m w h start goal pd" by blast
  have "valid_path m w h start goal pb" using pb(2) os by (simp add: valid_path_route)
  moreover have "\<forall>q. valid_path m w h start goal q \<longrightarrow> length pb \<le> length q"
    using pb(3) by (simp add: valid_path_route)
  moreover have "length pa = length pb" using pb(3)[OF pa(2)] pa(3)[OF pb(2)] by simp
  moreover have "length pb \<le> length pd" using pb(3)[OF pd(2)] .
  ultimately show ?thesis using pb(1) pa(1) pd(1) by blast
qed

theorem shortest_path_lengths_witness:
  "dense corridor 3 1 \<and> valid_path corridor 3 1 (0, 0) (2, 0) [(0, 0), (1, 0), (2, 0)] \<and>
   (\<exists>pb pa pd.
      bfs corridor (0, 0) (2, 0) 3 1 = Some (Inr pb) \<and>
      astar corridor (0, 0) (2, 0) 3 1 = Some (Inr pa) \<and>
      dfs corridor (0, 0) (2, 0) 3 1 = Some (Inr pd) \<and>
      valid_path corridor 3 1 (0, 0) (2, 0) pb \<and>
      length pa = length pb \<and> length pb \<le> length pd)"
proof -
  have v: "valid_path corridor 3 1 (0, 0) (2, 0) [(0, 0), (1, 0), (2, 0)]"
    by (simp add: valid_path_def adjacent_def open_cell_def in_bounds_def corridor_def
        EMPTY_def WALL_def)
  from shortest_path_lengths[OF dense_corridor v] have "\<exists>pb pa pd.
      bfs corridor (0, 0) (2, 0) 3 1 = Some (Inr pb) \<and>
      astar corridor (0, 0) (2, 0) 3 1 = Some (Inr pa) \<and>
      dfs corridor (0, 0) (2, 0) 3 1 = Some (Inr pd) \<and>
      valid_path corridor 3 1 (0, 0) (2, 0) pb \<and>
      length pa = length pb \<and> length pb \<le> length pd" by blast
  with dense_corridor v show ?thesis by blast
qed

text \<open>
  C9. On a dense grid with start and goal in bounds, no solver raises: every lookup
  \<^verbatim>\<open>maze[(nx, ny)]\<close> is behind the bounds check and \<^verbatim>\<open>g[current]\<close> is defined for the
  popped cell, so each search loop ends in a state and each solver returns a path.
\<close>

theorem solvers_raise_no_key_error:
  assumes "dense m w h" and "in_bounds w h start" and "in_bounds w h goal"
  shows "(\<exists>s. bfs_search m start goal w h = Inr s) \<and> (\<exists>p. bfs m start goal w h = Some (Inr p)) \<and>
         (\<exists>s. dfs_search m start goal w h = Inr s) \<and> (\<exists>p. dfs m start goal w h = Some (Inr p)) \<and>
         (\<exists>s. astar_search m start goal w h = Inr s) \<and> (\<exists>p. astar m start goal w h = Some (Inr p))"
  using bfs_facts[OF assms(1), of start goal] dfs_facts[OF assms(1), of start goal]
    astar_facts[OF assms(1), of start goal] by blast

theorem solvers_raise_no_key_error_witness:
  "dense corridor 3 1 \<and> in_bounds 3 1 (0, 0) \<and> in_bounds 3 1 (2, 0) \<and>
   (\<exists>p. bfs corridor (0, 0) (2, 0) 3 1 = Some (Inr p)) \<and>
   (\<exists>p. dfs corridor (0, 0) (2, 0) 3 1 = Some (Inr p)) \<and>
   (\<exists>p. astar corridor (0, 0) (2, 0) 3 1 = Some (Inr p))"
proof -
  have 1: "in_bounds 3 1 (0, 0)" "in_bounds 3 1 (2, 0)" by (simp_all add: in_bounds_def)
  from solvers_raise_no_key_error[OF dense_corridor 1] dense_corridor 1 show ?thesis by blast
qed

section \<open>The renderer against its contract\<close>

text \<open>
  The contract in the words of the specification: the symbol of a cell by precedence,
  a line of \<open>width\<close> symbols, and \<open>height\<close> lines, each followed by a newline.
\<close>

definition on_path :: "cell list option \<Rightarrow> cell \<Rightarrow> bool" where
  "on_path path c = (case path of None \<Rightarrow> False | Some p \<Rightarrow> c \<in> set p)"

definition spec_symbol :: "grid \<Rightarrow> cell list option \<Rightarrow> cell option \<Rightarrow> cell option \<Rightarrow> cell \<Rightarrow> pystr" where
  "spec_symbol m path start goal c =
     (if Some c = start then START
      else if Some c = goal then END
      else if on_path path c then PATH_MARK
      else if m c = Some WALL then WALL
      else EMPTY)"

definition spec_line :: "grid \<Rightarrow> int \<Rightarrow> cell list option \<Rightarrow> cell option \<Rightarrow> cell option \<Rightarrow> int \<Rightarrow> pystr" where
  "spec_line m w path start goal y = concat (map (\<lambda>x. spec_symbol m path start goal (x, y)) [0..w - 1])"

definition spec_render :: "grid \<Rightarrow> int \<Rightarrow> int \<Rightarrow> cell list option \<Rightarrow> cell option \<Rightarrow> cell option \<Rightarrow> pystr" where
  "spec_render m w h path start goal =
     concat (map (\<lambda>y. spec_line m w path start goal y @ NEWLINE) [0..h - 1])"

lemma render_cell_spec:
  assumes "r_maze s (x, y) = Some WALL \<or> r_maze s (x, y) = Some EMPTY"
  shows "render_cell path start goal y s x =
           Inr (s\<lparr>r_grid := r_grid s @ spec_symbol (r_maze s) path start goal (x, y)\<rparr>)"
proof (cases path)
  case None
  with assms show ?thesis
    by (auto simp: render_cell_def spec_symbol_def on_path_def EMPTY_neq_WALL)
next
  case (Some p)
  with assms show ?thesis
    by (cases "p = []") (auto simp: render_cell_def spec_symbol_def on_path_def EMPTY_neq_WALL)
qed

lemma foldE_render_cell:
  assumes "\<forall>x \<in> set xs. r_maze s (x, y) = Some WALL \<or> r_maze s (x, y) = Some EMPTY"
  shows "foldE (render_cell path start goal y) xs s =
           Inr (s\<lparr>r_grid := r_grid s @
                  concat (map (\<lambda>x. spec_symbol (r_maze s) path start goal (x, y)) xs)\<rparr>)"
  using assms
proof (induction xs arbitrary: s)
  case Nil show ?case by simp
next
  case (Cons x xs)
  let ?s1 = "s\<lparr>r_grid := r_grid s @ spec_symbol (r_maze s) path start goal (x, y)\<rparr>"
  from Cons.prems have 1: "render_cell path start goal y s x = Inr ?s1"
    by (intro render_cell_spec) simp
  from Cons.prems have "\<forall>x \<in> set xs. r_maze ?s1 (x, y) = Some WALL \<or> r_maze ?s1 (x, y) = Some EMPTY"
    by simp
  from Cons.IH[OF this] 1 show ?case by simp
qed

lemma render_row_spec:
  assumes "\<forall>x \<in> set [0..w - 1]. r_maze s (x, y) = Some WALL \<or> r_maze s (x, y) = Some EMPTY"
  shows "render_row path start goal w s y =
           Inr (s\<lparr>r_grid := r_grid s @ spec_line (r_maze s) w path start goal y @ NEWLINE\<rparr>)"
  by (simp add: render_row_def foldE_render_cell[OF assms] spec_line_def)

lemma foldE_render_row:
  assumes "\<forall>y \<in> set ys. \<forall>x \<in> set [0..w - 1].
      r_maze s (x, y) = Some WALL \<or> r_maze s (x, y) = Some EMPTY"
  shows "foldE (render_row path start goal w) ys s =
           Inr (s\<lparr>r_grid := r_grid s @
                  concat (map (\<lambda>y. spec_line (r_maze s) w path start goal y @ NEWLINE) ys)\<rparr>)"
  using assms
proof (induction ys arbitrary: s)
  case Nil show ?case by simp
next
  case (Cons y ys)
  let ?s1 = "s\<lparr>r_grid := r_grid s @ spec_line (r_maze s) w path start goal y @ NEWLINE\<rparr>"
  from Cons.prems have 1: "render_row path start goal w s y = Inr ?s1"
    by (intro render_row_spec) simp
  from Cons.prems have "\<forall>y \<in> set ys. \<forall>x \<in> set [0..w - 1].
      r_maze ?s1 (x, y) = Some WALL \<or> r_maze ?s1 (x, y) = Some EMPTY" by simp
  from Cons.IH[OF this] 1 show ?case by simp
qed

lemma render_run_spec:
  assumes "dense m w h"
  shows "render_run m w h path start goal =
           Inr \<lparr>r_maze = m, r_grid = spec_render m w h path start goal\<rparr>"
proof -
  let ?s = "\<lparr>r_maze = m, r_grid = []\<rparr>"
  have "\<forall>y \<in> set [0..h - 1]. \<forall>x \<in> set [0..w - 1].
      r_maze ?s (x, y) = Some WALL \<or> r_maze ?s (x, y) = Some EMPTY"
    using dense_in_bounds[OF assms] by (simp add: in_bounds_def)
  from foldE_render_row[OF this] show ?thesis
    by (simp add: render_run_def spec_render_def)
qed

lemma length_spec_symbol: "length (spec_symbol m path start goal c) = 1"
  by (simp add: spec_symbol_def START_def END_def PATH_MARK_def WALL_def EMPTY_def)

lemma newline_not_in_symbol: "10 \<notin> set (spec_symbol m path start goal c)"
  by (simp add: spec_symbol_def START_def END_def PATH_MARK_def WALL_def EMPTY_def)

lemma length_concat_ones:
  assumes "\<And>x. length (f x) = 1"
  shows "length (concat (map f xs)) = length xs"
  by (induction xs) (simp_all add: assms)

lemma length_spec_line: "length (spec_line m w path start goal y) = nat w"
  unfolding spec_line_def
  by (simp add: length_concat_ones[where f = "\<lambda>x. spec_symbol m path start goal (x, y)",
        OF length_spec_symbol])

text \<open>
  C7. On a dense grid \<open>render_maze\<close> returns the text of the contract: \<open>height\<close> lines,
  each of \<open>width\<close> symbols chosen by the precedence start, goal, path, wall, empty, and
  each followed by a newline (also the last one).
\<close>

theorem render_maze_contract:
  assumes "dense m w h"
  shows "render_maze m w h path start goal = Inr (spec_render m w h path start goal) \<and>
         length (spec_line m w path start goal y) = nat w \<and>
         10 \<notin> set (spec_line m w path start goal y) \<and>
         length (spec_render m w h path start goal) = nat h * (nat w + 1)"
proof -
  have 1: "render_maze m w h path start goal = Inr (spec_render m w h path start goal)"
    by (simp add: render_maze_def render_run_spec[OF assms])
  have 2: "10 \<notin> set (spec_line m w path start goal y)"
    by (simp add: spec_line_def newline_not_in_symbol)
  have "length (concat (map (\<lambda>y. spec_line m w path start goal y @ NEWLINE) ys))
      = length ys * (nat w + 1)" for ys
    by (induction ys) (simp_all add: length_spec_line NEWLINE_def)
  then have 3: "length (spec_render m w h path start goal) = nat h * (nat w + 1)"
    by (simp add: spec_render_def)
  from 1 2 3 length_spec_line show ?thesis by simp
qed

theorem render_maze_contract_witness:
  "dense corridor 3 1 \<and>
   render_maze corridor 3 1 (Some [(0, 0), (1, 0), (2, 0)]) (Some (0, 0)) (Some (2, 0)) =
     Inr (START @ PATH_MARK @ END @ NEWLINE)"
proof -
  have "spec_render corridor 3 1 (Some [(0, 0), (1, 0), (2, 0)]) (Some (0, 0)) (Some (2, 0)) =
      START @ PATH_MARK @ END @ NEWLINE"
    by (simp add: spec_render_def spec_line_def spec_symbol_def on_path_def upto.simps)
  with render_maze_contract[OF dense_corridor, of "Some [(0, 0), (1, 0), (2, 0)]" "Some (0, 0)"
      "Some (2, 0)"] dense_corridor
  show ?thesis by simp
qed

text \<open>
  C8. The grid is part of the state of each search loop and of the renderer; on a dense
  grid each of them ends in a state whose grid is the one it was given.
\<close>

theorem grid_unchanged:
  assumes "dense m w h"
  shows "(\<exists>s. bfs_search m start goal w h = Inr s \<and> maze s = m) \<and>
         (\<exists>s. dfs_search m start goal w h = Inr s \<and> maze s = m) \<and>
         (\<exists>s. astar_search m start goal w h = Inr s \<and> a_maze s = m) \<and>
         (\<exists>s. render_run m w h path rstart rgoal = Inr s \<and> r_maze s = m)"
  using bfs_facts[OF assms, of start goal] dfs_facts[OF assms, of start goal]
    astar_facts[OF assms, of start goal] render_run_spec[OF assms, of path rstart rgoal]
  by auto

theorem grid_unchanged_witness:
  "dense blocked 3 1 \<and>
   (\<exists>s. bfs_search blocked (0, 0) (2, 0) 3 1 = Inr s \<and> maze s = blocked) \<and>
   (\<exists>s. dfs_search blocked (0, 0) (2, 0) 3 1 = Inr s \<and> maze s = blocked) \<and>
   (\<exists>s. astar_search blocked (0, 0) (2, 0) 3 1 = Inr s \<and> a_maze s = blocked) \<and>
   (\<exists>s. render_run blocked 3 1 None None None = Inr s \<and> r_maze s = blocked)"
  using grid_unchanged[OF dense_blocked, of "(0, 0)" "(2, 0)" None None None] dense_blocked
  by simp

section \<open>The carving recursion returns\<close>

definition zone :: "int \<Rightarrow> int \<Rightarrow> int \<Rightarrow> int \<Rightarrow> cell set" where
  "zone w h x y = {min 0 x..max x (w - 1)} \<times> {min 0 y..max y (h - 1)}"

definition carve :: "'r gen_state \<Rightarrow> int \<times> int \<times> int \<times> int \<Rightarrow> 'r \<Rightarrow> 'r gen_state" where
  "carve s e st' =
     (case e of (nx, ny, wx, wy) \<Rightarrow>
        s\<lparr>g_maze := (g_maze s)((wx, wy) \<mapsto> EMPTY, (nx, ny) \<mapsto> EMPTY),
          visited := insert (nx, ny) (visited s),
          rng := st'\<rparr>)"

lemma finite_zone: "finite (zone w h x y)"
  by (simp add: zone_def)

lemma choice_in_set:
  assumes "xs \<noteq> []"
  shows "fst (choice R st xs) \<in> set xs"
  using assms by (simp add: choice_def randbelow_def split: prod.splits)

lemma neighbors_cases:
  assumes "e \<in> set (neighbors w h vis x y)"
  shows "(e = (x, y - 2, x, y - 1) \<and> y > 1 \<or>
          e = (x, y + 2, x, y + 1) \<and> y < h - 2 \<or>
          e = (x - 2, y, x - 1, y) \<and> x > 1 \<or>
          e = (x + 2, y, x + 1, y) \<and> x < w - 2) \<and>
         (fst e, fst (snd e)) \<notin> vis"
  using assms by (auto simp: neighbors_def split: if_splits)

lemma neighbors_zone:
  assumes "(nx, ny, wx, wy) \<in> set (neighbors w h vis x y)"
  shows "(nx, ny) \<in> zone w h x y" "(nx, ny) \<notin> vis" "zone w h nx ny \<subseteq> zone w h x y"
proof -
  from neighbors_cases[OF assms] have c:
    "(nx = x \<and> ny = y - 2 \<and> y > 1 \<or> nx = x \<and> ny = y + 2 \<and> y < h - 2 \<or>
      nx = x - 2 \<and> ny = y \<and> x > 1 \<or> nx = x + 2 \<and> ny = y \<and> x < w - 2)"
    and v: "(nx, ny) \<notin> vis" by auto
  show "(nx, ny) \<notin> vis" by (rule v)
  from c show "(nx, ny) \<in> zone w h x y" unfolding zone_def by auto
  from c show "zone w h nx ny \<subseteq> zone w h x y" unfolding zone_def
    by (intro Sigma_mono atLeastatMost_subset_iff[THEN iffD2]) auto
qed

lemma visit_loop_stop:
  "neighbors w h (visited s) x y = [] \<Longrightarrow> visit_loop R w h x y s = Some s"
  by (subst visit_loop.simps) simp

lemma visit_loop_unfold:
  assumes "neighbors w h (visited s) x y \<noteq> []"
    and "choice R (rng s) (neighbors w h (visited s) x y) = (e, st')"
  shows "visit_loop R w h x y s =
           Option.bind (visit_loop R w h (fst e) (fst (snd e)) (carve s e st')) (visit_loop R w h x y)"
  using assms by (subst visit_loop.simps) (simp add: carve_def split: prod.splits)

lemma visit_loop_returns:
  "\<exists>s'. visit_loop R w h x y s = Some s' \<and> visited s \<subseteq> visited s'"
proof (induction "card (zone w h x y - visited s)" arbitrary: x y s rule: less_induct)
  case less
  let ?nbs = "neighbors w h (visited s) x y"
  show ?case
  proof (cases "?nbs = []")
    case True
    then show ?thesis by (simp add: visit_loop_stop)
  next
    case False
    obtain e st' where ch: "choice R (rng s) ?nbs = (e, st')" by (cases "choice R (rng s) ?nbs")
    obtain nx ny wx wy where e: "e = (nx, ny, wx, wy)" by (cases e)
    from choice_in_set[OF False, of R "rng s"] ch e have mem: "(nx, ny, wx, wy) \<in> set ?nbs" by simp
    note nz = neighbors_zone[OF mem]
    let ?s1 = "carve s e st'"
    have v1: "visited ?s1 = insert (nx, ny) (visited s)" by (simp add: carve_def e)
    have "zone w h nx ny - visited ?s1 \<subseteq> zone w h x y - visited ?s1" using nz(3) by auto
    also have "\<dots> \<subset> zone w h x y - visited s" using nz(1,2) v1 by auto
    finally have "card (zone w h nx ny - visited ?s1) < card (zone w h x y - visited s)"
      by (intro psubset_card_mono) (simp_all add: finite_zone)
    from less[OF this] obtain s2 where s2: "visit_loop R w h nx ny ?s1 = Some s2"
      "visited ?s1 \<subseteq> visited s2" by blast
    have "zone w h x y - visited s2 \<subseteq> zone w h x y - visited ?s1" using s2(2) by auto
    also have "\<dots> \<subset> zone w h x y - visited s" using nz(1,2) v1 by auto
    finally have "card (zone w h x y - visited s2) < card (zone w h x y - visited s)"
      by (intro psubset_card_mono) (simp_all add: finite_zone)
    from less[OF this] obtain s3 where s3: "visit_loop R w h x y s2 = Some s3"
      "visited s2 \<subseteq> visited s3" by blast
    have "visit_loop R w h x y s = Some s3"
      using visit_loop_unfold[OF False ch] s2(1) s3(1) by (simp add: e)
    moreover have "visited s \<subseteq> visited s3" using s2(2) s3(2) v1 by auto
    ultimately show ?thesis by blast
  qed
qed

text \<open>The induction principle of the recursion, as a terminating function would have it.\<close>

lemma visit_loop_induct:
  assumes stop: "\<And>x y s. neighbors w h (visited s) x y = [] \<Longrightarrow> P x y s s"
    and rec: "\<And>x y s e st' s2 s3.
      neighbors w h (visited s) x y \<noteq> [] \<Longrightarrow>
      choice R (rng s) (neighbors w h (visited s) x y) = (e, st') \<Longrightarrow>
      e \<in> set (neighbors w h (visited s) x y) \<Longrightarrow>
      visit_loop R w h (fst e) (fst (snd e)) (carve s e st') = Some s2 \<Longrightarrow>
      P (fst e) (fst (snd e)) (carve s e st') s2 \<Longrightarrow>
      visit_loop R w h x y s2 = Some s3 \<Longrightarrow>
      P x y s2 s3 \<Longrightarrow> P x y s s3"
  shows "\<exists>s'. visit_loop R w h x y s = Some s' \<and> P x y s s'"
proof (induction "card (zone w h x y - visited s)" arbitrary: x y s rule: less_induct)
  case less
  let ?nbs = "neighbors w h (visited s) x y"
  show ?case
  proof (cases "?nbs = []")
    case True
    then show ?thesis using stop[OF True] by (simp add: visit_loop_stop)
  next
    case False
    obtain e st' where ch: "choice R (rng s) ?nbs = (e, st')" by (cases "choice R (rng s) ?nbs")
    obtain nx ny wx wy where e: "e = (nx, ny, wx, wy)" by (cases e)
    from choice_in_set[OF False, of R "rng s"] ch have mem0: "e \<in> set ?nbs" by simp
    then have mem: "(nx, ny, wx, wy) \<in> set ?nbs" by (simp add: e)
    note nz = neighbors_zone[OF mem]
    let ?s1 = "carve s e st'"
    have v1: "visited ?s1 = insert (nx, ny) (visited s)" by (simp add: carve_def e)
    have "zone w h nx ny - visited ?s1 \<subseteq> zone w h x y - visited ?s1" using nz(3) by auto
    also have "\<dots> \<subset> zone w h x y - visited s" using nz(1,2) v1 by auto
    finally have "card (zone w h nx ny - visited ?s1) < card (zone w h x y - visited s)"
      by (intro psubset_card_mono) (simp_all add: finite_zone)
    from less[OF this] obtain s2 where s2: "visit_loop R w h nx ny ?s1 = Some s2"
      "P nx ny ?s1 s2" by blast
    from visit_loop_returns[of R w h nx ny ?s1] s2(1) have mono: "visited ?s1 \<subseteq> visited s2"
      by simp
    have "zone w h x y - visited s2 \<subseteq> zone w h x y - visited ?s1" using mono by auto
    also have "\<dots> \<subset> zone w h x y - visited s" using nz(1,2) v1 by auto
    finally have "card (zone w h x y - visited s2) < card (zone w h x y - visited s)"
      by (intro psubset_card_mono) (simp_all add: finite_zone)
    from less[OF this] obtain s3 where s3: "visit_loop R w h x y s2 = Some s3"
      "P x y s2 s3" by blast
    have r: "visit_loop R w h x y s = Some s3"
      using visit_loop_unfold[OF False ch] s2(1) s3(1) by (simp add: e)
    have "P x y s s3"
      using rec[OF False ch mem0 _ _ s3(1) s3(2)] s2 by (simp add: e)
    with r show ?thesis by blast
  qed
qed

end
